theory Spec2Isabelle
  imports Complex_Main "HOL-Library.Multiset"
begin

section \<open>Data model\<close>

text \<open>
  The exceptions of \<^verbatim>\<open>dynamics.py\<close> and of the numpy and igraph calls it makes.
  \<open>PyException msg\<close> is Python's \<^verbatim>\<open>raise Exception(msg)\<close>; \<open>CouldNotRemoveArc i\<close> is
  the message \<^verbatim>\<open>'Could not remove arc in step {}'.format(i)\<close>.
\<close>

datatype error =
    ValueError
  | IndexError
  | AxisError
  | UnboundLocalError
  | PyException string
  | CouldNotRemoveArc nat

text \<open>
  An igraph directed graph: \<^verbatim>\<open>g.vcount()\<close> vertices \<open>0 .. n-1\<close> and the edge list
  \<^verbatim>\<open>g.get_edgelist()\<close>, whose position is the edge id. igraph keeps every endpoint
  below the vertex count (\<open>wf_graph\<close>).
\<close>

record graph =
  vcount :: nat
  edgelist :: "(nat \<times> nat) list"

definition ecount :: "graph \<Rightarrow> nat" where
  "ecount g = length (edgelist g)"

definition wf_graph :: "graph \<Rightarrow> bool" where
  "wf_graph g = list_all (\<lambda>(u, v). u < vcount g \<and> v < vcount g) (edgelist g)"

text \<open>\<^verbatim>\<open>g.get_adjacency().data\<close>: entry \<open>(i, j)\<close> counts the edges from \<open>i\<close> to \<open>j\<close>.\<close>

definition get_adjacency :: "graph \<Rightarrow> nat list list" where
  "get_adjacency g =
     map (\<lambda>i. map (\<lambda>j. count_list (edgelist g) (i, j)) [0..<vcount g]) [0..<vcount g]"

section \<open>Integrate-and-fire (\<^verbatim>\<open>simu_intandfire\<close>)\<close>

text \<open>
  \<^verbatim>\<open>spa.csr_matrix((h, (rows, cols)), shape=(n, n))\<close>: entry \<open>(i, j)\<close> is the sum of
  the \<open>h\<close> values whose coordinates are \<open>(i, j)\<close> (duplicates add up). The charges are
  integer valued, so the matrix entries are kept as integers. The coordinates of an
  igraph edge list lie within the shape.
\<close>

definition csr_matrix :: "nat \<Rightarrow> int list \<Rightarrow> nat list \<Rightarrow> nat list \<Rightarrow> int list list" where
  "csr_matrix n h rows cols =
     map (\<lambda>i. map (\<lambda>j. sum_list (map (\<lambda>(x, r, c). if r = i \<and> c = j then x else 0)
                                    (zip h (zip rows cols)))) [0..<n]) [0..<n]"

text \<open>
  Lines 43 to 46. On an empty edge list \<^verbatim>\<open>zip(*edges)\<close> yields nothing and the
  unpacking \<^verbatim>\<open>par, child = zip(*edges)\<close> raises ValueError.
\<close>

definition sparse_propagator :: "graph \<Rightarrow> error + int list list" where
  "sparse_propagator g =
     (let edges = edgelist g in
      if edges = [] then Inl ValueError
      else
        let par = map fst edges;
            child = map snd edges;
            h = replicate (length edges) 1
        in Inr (csr_matrix (vcount g) h child par))"

text \<open>\<^verbatim>\<open>A.dot(x)\<close>.\<close>

definition dot :: "int list list \<Rightarrow> int list \<Rightarrow> int list" where
  "dot A x = map (\<lambda>row. sum_list (map2 (*) row x)) A"

text \<open>
  One tick, lines 51 to 53 (and 57, 59, 60): the spiking mask and the next charges.
\<close>

definition is_spiking_of :: "int \<Rightarrow> int list \<Rightarrow> bool list" where
  "is_spiking_of threshold acc = map (\<lambda>a. threshold \<le> a) acc"

definition intandfire_step :: "int list list \<Rightarrow> int \<Rightarrow> int list \<Rightarrow> int list" where
  "intandfire_step A threshold acc =
     (let is_spiking = is_spiking_of threshold acc;
          charge_gain = dot A (map of_bool is_spiking)
      in map (\<lambda>(a, s, g). a - a * of_bool s + g) (zip acc (zip is_spiking charge_gain)))"

text \<open>
  The burn-in loop (lines 50 to 53). The state is \<open>acc\<close> and the Python variable
  \<^verbatim>\<open>is_spiking\<close>, which is unbound (\<open>None\<close>) until a loop body has run.
\<close>

fun burnin_loop :: "int list list \<Rightarrow> int \<Rightarrow> nat \<Rightarrow> int list \<times> bool list option
    \<Rightarrow> int list \<times> bool list option" where
  "burnin_loop A threshold 0 st = st"
| "burnin_loop A threshold (Suc k) (acc, sp) =
     burnin_loop A threshold k
       (intandfire_step A threshold acc, Some (is_spiking_of threshold acc))"

text \<open>The measurement loop (lines 56 to 60), with the fire counts.\<close>

fun measure_loop :: "int list list \<Rightarrow> int \<Rightarrow> nat \<Rightarrow> int list \<times> bool list option \<times> int list
    \<Rightarrow> int list \<times> bool list option \<times> int list" where
  "measure_loop A threshold 0 st = st"
| "measure_loop A threshold (Suc k) (acc, sp, fires) =
     measure_loop A threshold k
       (intandfire_step A threshold acc,
        Some (is_spiking_of threshold acc),
        map2 (+) fires (map of_bool (is_spiking_of threshold acc)))"

text \<open>
  \<^verbatim>\<open>int(x)\<close> on a number: truncation towards zero.
\<close>

definition py_int :: "real \<Rightarrow> int" where
  "py_int x = (if 0 \<le> x then \<lfloor>x\<rfloor> else \<lceil>x\<rceil>)"

text \<open>
  \<^verbatim>\<open>simu_intandfire(gin, threshold, tmax, trimsz)\<close>. \<open>initial_charges\<close> is the array
  that \<^verbatim>\<open>np.random.randint(int(threshold*1.3), size=n)\<close> returned; the call raises
  ValueError when its bound is not positive. \<^verbatim>\<open>range(k)\<close> runs \<open>nat k\<close> times.
\<close>

definition simu_intandfire :: "graph \<Rightarrow> int \<Rightarrow> int \<Rightarrow> int \<Rightarrow> int list \<Rightarrow> error + (int list \<times> int)" where
  "simu_intandfire gin threshold tmax trimsz initial_charges =
     (let n = vcount gin in
      if py_int (of_int threshold * 1.3) \<le> 0 then Inl ValueError
      else
        case sparse_propagator gin of
          Inl e \<Rightarrow> Inl e
        | Inr A \<Rightarrow>
            let (acc, sp) = burnin_loop A threshold (nat trimsz) (initial_charges, None);
                (acc', sp', fires) =
                  measure_loop A threshold (nat (tmax - trimsz)) (acc, sp, replicate n 0)
            in (case sp' of
                  None \<Rightarrow> Inl UnboundLocalError
                | Some is_spiking \<Rightarrow> Inr (fires, sum_list (map of_bool is_spiking))))"





section \<open>SIS epidemics (\<^verbatim>\<open>infection_step\<close>, \<^verbatim>\<open>set_initial_status\<close>, \<^verbatim>\<open>simu_sis\<close>)\<close>

text \<open>
  The outcomes of the random draws are arguments of the model: a function \<open>rv\<close> stands
  for the array a call of \<^verbatim>\<open>np.random.rand(k)\<close> returned (\<open>rv i\<close> is its entry \<open>i\<close>),
  and \<open>choice\<close> for the sample \<^verbatim>\<open>np.random.choice\<close> returned. Probabilities are
  real numbers.

  \<^verbatim>\<open>np.where(mask)[0]\<close>: the positions at which the mask holds, in increasing order.
\<close>

definition np_where :: "bool list \<Rightarrow> nat list" where
  "np_where bs = filter (\<lambda>i. bs ! i) [0..<length bs]"

text \<open>\<^verbatim>\<open>a[inds] = c\<close> for in-range positions \<open>inds\<close>.\<close>

definition assign_at :: "int list \<Rightarrow> nat list \<Rightarrow> int \<Rightarrow> int list" where
  "assign_at a inds c = foldl (\<lambda>s i. s[i := c]) a inds"

text \<open>
  The recovery phase, lines 69 to 74. \<^verbatim>\<open>np.random.rand(np.sum(status0))\<close> raises
  ValueError on a negative count, and \<^verbatim>\<open>infinds[np.where(lucky)]\<close> raises IndexError
  when a lucky position lies beyond the infected positions.
\<close>

definition recovery :: "int list \<Rightarrow> real \<Rightarrow> (nat \<Rightarrow> real) \<Rightarrow> error + int list" where
  "recovery status0 gamma rv =
     (let status1 = status0;
          k = sum_list status0
      in if k < 0 then Inl ValueError
         else
           let randvals = map rv [0..<nat k];
               lucky = map (\<lambda>r. r < gamma) randvals;
               infinds = np_where (map (\<lambda>s. s \<noteq> 0) status0);
               luckyinds = np_where lucky
           in if list_ex (\<lambda>i. length infinds \<le> i) luckyinds then Inl IndexError
              else Inr (assign_at status1 (map ((!) infinds) luckyinds) 0))"

text \<open>
  Lines 79 and 80: \<open>aux\<close> keeps the rows of \<open>adj\<close> of the vertices infected after the
  recovery, and \<open>kins\<close> sums its columns: the number of infected in-neighbours.
\<close>

definition kins_of :: "nat list list \<Rightarrow> int list \<Rightarrow> nat list" where
  "kins_of adj status1 =
     (let aux = map ((!) adj) (np_where (map (\<lambda>s. s \<noteq> 0) status1))
      in map (\<lambda>j. sum_list (map (\<lambda>row. row ! j) aux)) [0..<length adj])"

text \<open>Lines 78 and 81: \<open>q = 1 - beta\<close> and \<open>probs = 1 - q ** kins\<close>.\<close>

definition probs_of :: "real \<Rightarrow> nat list \<Rightarrow> real list" where
  "probs_of beta kins = map (\<lambda>k. 1 - (1 - beta) ^ k) kins"

text \<open>
  The infection phase, lines 77 to 86. The boolean index \<^verbatim>\<open>adj[status1.astype(bool), :]\<close>
  raises IndexError when the mask and the matrix differ in length. Line 87
  (\<open>balance\<close>) is never used.
\<close>

definition infection :: "nat list list \<Rightarrow> int list \<Rightarrow> real \<Rightarrow> (nat \<Rightarrow> real) \<Rightarrow> error + int list" where
  "infection adj status1 beta rv =
     (if length status1 \<noteq> length adj then Inl IndexError
      else
        let status2 = status1;
            kins = kins_of adj status1;
            probs = probs_of beta kins;
            posprobids = np_where (map (\<lambda>p. p \<noteq> 0) probs);
            posprobs = map ((!) probs) posprobids;
            randvals = map rv [0..<length posprobs];
            relinds = np_where (map2 (<) randvals posprobs)
        in Inr (assign_at status2 (map ((!) posprobids) relinds) 1))"

text \<open>\<^verbatim>\<open>infection_step(adj, status0, beta, gamma)\<close>: both phases, and the return of line 89.\<close>

definition infection_step :: "nat list list \<Rightarrow> int list \<Rightarrow> real \<Rightarrow> real \<Rightarrow> (nat \<Rightarrow> real) \<Rightarrow> (nat \<Rightarrow> real)
    \<Rightarrow> error + (int list \<times> int list)" where
  "infection_step adj status0 beta gamma rv1 rv2 =
     (case recovery status0 gamma rv1 of
        Inl e \<Rightarrow> Inl e
      | Inr status1 \<Rightarrow>
          (case infection adj status1 beta rv2 of
             Inl e \<Rightarrow> Inl e
           | Inr status2 \<Rightarrow> Inr (status2, map2 (-) status2 status1)))"

text \<open>
  \<^verbatim>\<open>set_initial_status(n, i0)\<close>. \<^verbatim>\<open>np.random.choice(range(n), size=i0, replace=False)\<close>
  raises ValueError when \<open>i0\<close> is negative or exceeds \<open>n\<close>; an index beyond the array
  raises IndexError.
\<close>

definition set_initial_status :: "nat \<Rightarrow> int \<Rightarrow> nat list \<Rightarrow> error + int list" where
  "set_initial_status n i0 choice =
     (let status = replicate n 0
      in if i0 < 0 \<or> int n < i0 then Inl ValueError
         else if list_ex (\<lambda>c. n \<le> c) choice then Inl IndexError
         else Inr (assign_at status choice 1))"

text \<open>
  The burn-in loop of \<^verbatim>\<open>simu_sis\<close> (lines 108 and 109): \<open>k\<close> iterations left, \<open>t\<close> the
  number of calls of \<^verbatim>\<open>infection_step\<close> made so far, whose draws are \<open>rvs t\<close>.
\<close>

fun sis_burnin :: "nat list list \<Rightarrow> real \<Rightarrow> real \<Rightarrow> (nat \<Rightarrow> (nat \<Rightarrow> real) \<times> (nat \<Rightarrow> real))
    \<Rightarrow> nat \<Rightarrow> nat \<Rightarrow> int list \<Rightarrow> error + int list" where
  "sis_burnin adj beta gamma rvs 0 t status = Inr status"
| "sis_burnin adj beta gamma rvs (Suc k) t status =
     (case infection_step adj status beta gamma (fst (rvs t)) (snd (rvs t)) of
        Inl e \<Rightarrow> Inl e
      | Inr (status', _) \<Rightarrow> sis_burnin adj beta gamma rvs k (Suc t) status')"

text \<open>
  The measurement loop (lines 112 to 114). \<^verbatim>\<open>newinf\<close> is unbound (\<open>None\<close>) until the
  body has run once.
\<close>

fun sis_measure :: "nat list list \<Rightarrow> real \<Rightarrow> real \<Rightarrow> (nat \<Rightarrow> (nat \<Rightarrow> real) \<times> (nat \<Rightarrow> real))
    \<Rightarrow> nat \<Rightarrow> nat \<Rightarrow> int list \<times> int list option \<times> int list
    \<Rightarrow> error + (int list \<times> int list option \<times> int list)" where
  "sis_measure adj beta gamma rvs 0 t st = Inr st"
| "sis_measure adj beta gamma rvs (Suc k) t (status, newinf, ninfec) =
     (case infection_step adj status beta gamma (fst (rvs t)) (snd (rvs t)) of
        Inl e \<Rightarrow> Inl e
      | Inr (status', newinf') \<Rightarrow>
          sis_measure adj beta gamma rvs k (Suc t)
            (status', Some newinf', map2 (+) ninfec newinf'))"

text \<open>\<^verbatim>\<open>simu_sis(gin, beta, gamma, i0, trimsz, tmax)\<close>.\<close>

definition simu_sis :: "graph \<Rightarrow> real \<Rightarrow> real \<Rightarrow> int \<Rightarrow> int \<Rightarrow> int \<Rightarrow> nat list
    \<Rightarrow> (nat \<Rightarrow> (nat \<Rightarrow> real) \<times> (nat \<Rightarrow> real)) \<Rightarrow> error + (int list \<times> int)" where
  "simu_sis gin beta gamma i0 trimsz tmax choice rvs =
     (let adj = get_adjacency gin;
          n = vcount gin
      in case set_initial_status n i0 choice of
           Inl e \<Rightarrow> Inl e
         | Inr status \<Rightarrow>
             (case sis_burnin adj beta gamma rvs (nat trimsz) 0 status of
                Inl e \<Rightarrow> Inl e
              | Inr status' \<Rightarrow>
                  (case sis_measure adj beta gamma rvs (nat (tmax - trimsz)) (nat trimsz)
                          (status', None, replicate n 0) of
                     Inl e \<Rightarrow> Inl e
                   | Inr (status'', newinf, ninfec) \<Rightarrow>
                       (case newinf of
                          None \<Rightarrow> Inl UnboundLocalError
                        | Some d \<Rightarrow> Inr (ninfec, sum_list d)))))"

text \<open>A status vector with every entry SUSCEPTIBLE (0) or INFECTED (1).\<close>

definition binary :: "int list \<Rightarrow> bool" where
  "binary status = list_all (\<lambda>x. x = 0 \<or> x = 1) status"

text \<open>Constant draws, for concrete runs.\<close>

definition const_draw :: "real \<Rightarrow> nat \<Rightarrow> real" where
  "const_draw r i = r"

definition const_draws :: "real \<Rightarrow> real \<Rightarrow> nat \<Rightarrow> (nat \<Rightarrow> real) \<times> (nat \<Rightarrow> real)" where
  "const_draws r1 r2 t = (const_draw r1, const_draw r2)"

text \<open>An \<open>n \<times> n\<close> adjacency matrix.\<close>

definition square_matrix :: "nat \<Rightarrow> nat list list \<Rightarrow> bool" where
  "square_matrix n adj = (length adj = n \<and> list_all (\<lambda>row. length row = n) adj)"

section \<open>Random walk (\<^verbatim>\<open>randomwalk\<close>, \<^verbatim>\<open>simu_walk\<close>)\<close>

text \<open>
  Line 195, \<^verbatim>\<open>trans = adj / np.sum(adj, axis=1).reshape(n, -1)\<close>: each row divided by its
  sum. A row whose sum is 0 consists of zeros only, and every entry becomes
  \<^verbatim>\<open>0/0 = nan\<close>: such a row is \<open>None\<close>.
\<close>

definition trans_of :: "nat list list \<Rightarrow> real list option list" where
  "trans_of adj =
     map (\<lambda>row. let d = sum_list row
                in if d = 0 then None else Some (map (\<lambda>a. real a / real d) row)) adj"

text \<open>\<^verbatim>\<open>p.cumsum()\<close>.\<close>

definition cumsum :: "real list \<Rightarrow> real list" where
  "cumsum p = map (\<lambda>i. sum_list (take (Suc i) p)) [0..<length p]"

text \<open>
  \<^verbatim>\<open>np.random.choice(range(n), p=p)\<close> for the uniform variate \<open>u\<close> it draws from
  \<open>[0, 1)\<close>: numpy raises ValueError on probabilities that contain NaN or whose number
  differs from \<open>n\<close>, and otherwise returns
  \<^verbatim>\<open>cdf.searchsorted(u, side='right')\<close> for \<^verbatim>\<open>cdf = p.cumsum(); cdf /= cdf[-1]\<close>,
  the number of entries of the non-decreasing \<open>cdf\<close> that are at most \<open>u\<close>.
\<close>

definition choice_p :: "nat \<Rightarrow> real list option \<Rightarrow> real \<Rightarrow> error + nat" where
  "choice_p n p u =
     (case p of
        None \<Rightarrow> Inl ValueError
      | Some ps \<Rightarrow>
          if length ps \<noteq> n \<or> n = 0 then Inl ValueError
          else
            let cdf = cumsum ps;
                cdf' = map (\<lambda>c. c / last cdf) cdf
            in Inr (length (filter (\<lambda>c. c \<le> u) cdf')))"

text \<open>
  The loop of \<^verbatim>\<open>randomwalk\<close> (lines 170 and 171): \<open>k\<close> iterations left, \<open>i\<close> the loop
  variable, \<open>walk\<close> the entries \<open>0 .. i\<close> filled so far; \<open>us i\<close> is the variate drawn
  in iteration \<open>i\<close>. Reading a row beyond the matrix raises IndexError.
\<close>

fun walk_loop :: "real list option list \<Rightarrow> (nat \<Rightarrow> real) \<Rightarrow> nat \<Rightarrow> nat \<Rightarrow> nat list
    \<Rightarrow> error + nat list" where
  "walk_loop transm us 0 i walk = Inr walk"
| "walk_loop transm us (Suc k) i walk =
     (let v = walk ! i
      in if length transm \<le> v then Inl IndexError
         else
           (case choice_p (length transm) (transm ! v) (us i) of
              Inl e \<Rightarrow> Inl e
            | Inr w \<Rightarrow> walk_loop transm us k (Suc i) (walk @ [w])))"

text \<open>
  \<^verbatim>\<open>randomwalk(l, startnode, trans)\<close>. The array has \<open>l + 1\<close> entries:
  \<^verbatim>\<open>np.ones(l+1)\<close> raises ValueError on a negative size, and \<^verbatim>\<open>walk[0] = startnode\<close>
  raises IndexError on an empty array.
\<close>

definition randomwalk :: "int \<Rightarrow> nat \<Rightarrow> real list option list \<Rightarrow> (nat \<Rightarrow> real) \<Rightarrow> error + nat list" where
  "randomwalk l startnode transm us =
     (if l + 1 < 0 then Inl ValueError
      else if l + 1 = 0 then Inl IndexError
      else walk_loop transm us (nat l) 0 [startnode])"

text \<open>The slice \<^verbatim>\<open>a[k:]\<close>: a negative \<open>k\<close> counts from the end.\<close>

definition py_slice_from :: "int \<Rightarrow> 'a list \<Rightarrow> 'a list" where
  "py_slice_from k a =
     (if 0 \<le> k then drop (nat k) a else drop (length a - nat (- k)) a)"

text \<open>The loop of lines 200 and 201, \<^verbatim>\<open>visits[v] = c\<close>.\<close>

fun assign_counts :: "(nat \<times> nat) list \<Rightarrow> int list \<Rightarrow> error + int list" where
  "assign_counts [] visits = Inr visits"
| "assign_counts ((v, c) # rest) visits =
     (if length visits \<le> v then Inl IndexError
      else assign_counts rest (visits[v := int c]))"

text \<open>
  \<^verbatim>\<open>simu_walk(idx, g, walklen, trimsz)\<close>. \<open>startnode\<close> is the value
  \<^verbatim>\<open>np.random.randint(0, g.vcount())\<close> returned. On a graph without vertices the
  adjacency array is one-dimensional and \<^verbatim>\<open>np.sum(adj, axis=1)\<close> raises AxisError.
  \<^verbatim>\<open>np.unique(w, return_counts=True)\<close> gives the sorted distinct values of \<open>w\<close> and how
  often each occurs.
\<close>

definition simu_walk :: "nat \<Rightarrow> graph \<Rightarrow> int \<Rightarrow> int \<Rightarrow> nat \<Rightarrow> (nat \<Rightarrow> real) \<Rightarrow> error + int list" where
  "simu_walk idx g walklen trimsz startnode us =
     (if vcount g = 0 then Inl AxisError
      else
        let adj = get_adjacency g;
            transm = trans_of adj
        in (case randomwalk walklen startnode transm us of
              Inl e \<Rightarrow> Inl e
            | Inr walk \<Rightarrow>
                let w = py_slice_from trimsz walk;
                    vs = sort (remdups w);
                    cs = map (count_list w) vs;
                    visits = replicate (vcount g) 0
                in assign_counts (zip vs cs) visits))"

text \<open>The out-degree of a vertex, and the graphs in which every vertex has one.\<close>

definition out_degree :: "graph \<Rightarrow> nat \<Rightarrow> nat" where
  "out_degree g v = length (filter (\<lambda>(a, b). a = v) (edgelist g))"

definition positive_degrees :: "graph \<Rightarrow> bool" where
  "positive_degrees g = list_all (\<lambda>v. 0 < out_degree g v) [0..<vcount g]"

definition uniform_draws :: "(nat \<Rightarrow> real) \<Rightarrow> bool" where
  "uniform_draws us = (\<forall>i. 0 \<le> us i \<and> us i < 1)"

section \<open>Connectivity-preserving pruning (\<^verbatim>\<open>remove_arc_conn\<close>)\<close>

text \<open>
  \<^verbatim>\<open>g.is_connected(mode='strong')\<close>: every vertex reaches every other vertex along
  directed edges. igraph regards the graph without vertices as disconnected.
\<close>

definition is_connected :: "graph \<Rightarrow> bool" where
  "is_connected g =
     (0 < vcount g \<and>
      list_all (\<lambda>u. list_all (\<lambda>v. u = v \<or> (u, v) \<in> (set (edgelist g))\<^sup>+) [0..<vcount g])
        [0..<vcount g])"

text \<open>\<^verbatim>\<open>newg.delete_edges([g.es[eid]])\<close> on a copy of \<open>g\<close>: the edge with id \<open>eid\<close> goes.\<close>

definition delete_edge :: "graph \<Rightarrow> nat \<Rightarrow> graph" where
  "delete_edge g eid = g\<lparr>edgelist := take eid (edgelist g) @ drop (Suc eid) (edgelist g)\<rparr>"

text \<open>
  The loop of \<^verbatim>\<open>remove_arc_conn\<close> (lines 181 to 187) over the shuffled edge ids that are
  left, with the counter \<open>ntries\<close>. \<^verbatim>\<open>g.es[eid]\<close> raises IndexError beyond the edge
  count; the loop falling through reaches \<^verbatim>\<open>raise Exception()\<close>.
\<close>

fun rac_loop :: "graph \<Rightarrow> nat list \<Rightarrow> nat \<Rightarrow> error + (graph \<times> nat)" where
  "rac_loop g [] ntries = Inl (PyException [])"
| "rac_loop g (eid # rest) ntries =
     (if ecount g \<le> eid then Inl IndexError
      else
        let newg = delete_edge g eid
        in if is_connected newg then Inr (newg, ntries)
           else rac_loop g rest (ntries + 1))"

text \<open>
  \<^verbatim>\<open>remove_arc_conn(g)\<close>; \<open>edgeids\<close> is the array \<^verbatim>\<open>np.arange(0, g.ecount())\<close> after
  \<^verbatim>\<open>np.random.shuffle\<close>, a permutation of the edge ids (\<open>shuffled\<close>).
\<close>

definition remove_arc_conn :: "graph \<Rightarrow> nat list \<Rightarrow> error + (graph \<times> nat)" where
  "remove_arc_conn g edgeids = rac_loop g edgeids 1"

definition shuffled :: "graph \<Rightarrow> nat list \<Rightarrow> bool" where
  "shuffled g edgeids = (mset edgeids = mset [0..<ecount g])"

text \<open>
  A cycle of \<open>g\<close>, given by the ids of its edges in order: each edge ends where the next
  one starts, the last one ends where the first one starts, and no edge and no vertex
  occurs twice.
\<close>

definition cycle_vertices :: "graph \<Rightarrow> nat list \<Rightarrow> nat list" where
  "cycle_vertices g c = map (\<lambda>e. fst (edgelist g ! e)) c"

definition is_cycle :: "graph \<Rightarrow> nat list \<Rightarrow> bool" where
  "is_cycle g c =
     (c \<noteq> [] \<and> list_all (\<lambda>e. e < ecount g) c \<and> distinct c \<and> distinct (cycle_vertices g c) \<and>
      list_all (\<lambda>i. snd (edgelist g ! (c ! i)) = fst (edgelist g ! (c ! (Suc i mod length c))))
        [0..<length c])"

definition edge_disjoint :: "nat list \<Rightarrow> nat list \<Rightarrow> bool" where
  "edge_disjoint c1 c2 = list_all (\<lambda>e. e \<notin> set c2) c1"

text \<open>A cycle that passes through every vertex; two cycles that do so together.\<close>

definition covers_all :: "graph \<Rightarrow> nat list \<Rightarrow> bool" where
  "covers_all g c = list_all (\<lambda>v. v \<in> set (cycle_vertices g c)) [0..<vcount g]"

definition jointly_cover :: "graph \<Rightarrow> nat list \<Rightarrow> nat list \<Rightarrow> bool" where
  "jointly_cover g c1 c2 =
     list_all (\<lambda>v. v \<in> set (cycle_vertices g c1) \<or> v \<in> set (cycle_vertices g c2))
       [0..<vcount g]"

text \<open>
  The graph that is a single directed cycle through the distinct vertices \<open>vs\<close>, all the
  vertices there are and at least two: its edges are, in some order, those from each
  vertex of \<open>vs\<close> to the next and from the last to the first.
\<close>

definition single_cycle :: "graph \<Rightarrow> nat list \<Rightarrow> bool" where
  "single_cycle g vs =
     (2 \<le> length vs \<and> distinct vs \<and> length vs = vcount g \<and> list_all (\<lambda>v. v < vcount g) vs \<and>
      mset (edgelist g) = mset (zip vs (rotate1 vs)))"

section \<open>The experiment driver (\<^verbatim>\<open>initial_check\<close>, \<^verbatim>\<open>run_experiment\<close>)\<close>

text \<open>
  \<^verbatim>\<open>initial_check(nbatches, batchsz, g)\<close>. The product of two Python integers is compared
  with the float \<^verbatim>\<open>0.75 * g.ecount()\<close>.
\<close>

definition initial_check :: "int \<Rightarrow> int \<Rightarrow> graph \<Rightarrow> error + unit" where
  "initial_check nbatches batchsz g =
     (if real_of_int (nbatches * batchsz) > 0.75 * real (ecount g)
        then Inl (PyException ''Too may arcs to be removed.'')
      else if \<not> is_connected g
        then Inl (PyException ''Initial graph is not strongly connected.'')
      else Inr ())"

text \<open>\<^verbatim>\<open>g.degree(mode=degmode)\<close> for the modes \<^verbatim>\<open>'in'\<close>, \<^verbatim>\<open>'out'\<close> and \<^verbatim>\<open>'all'\<close>.\<close>

datatype degmode = Deg_in | Deg_out | Deg_all

definition in_degree :: "graph \<Rightarrow> nat \<Rightarrow> nat" where
  "in_degree g v = length (filter (\<lambda>(a, b). b = v) (edgelist g))"

definition degree :: "graph \<Rightarrow> degmode \<Rightarrow> int list" where
  "degree g m =
     map (\<lambda>v. case m of
                 Deg_in \<Rightarrow> int (in_degree g v)
               | Deg_out \<Rightarrow> int (out_degree g v)
               | Deg_all \<Rightarrow> int (in_degree g v + out_degree g v)) [0..<vcount g]"

text \<open>
  The arguments of \<^verbatim>\<open>run_experiment\<close> that the simulation reads; \<open>cfg_n\<close> is the
  requested vertex count \<open>n\<close>.
\<close>

record config =
  cfg_n :: int
  cfg_degmode :: degmode
  cfg_nbatches :: int
  cfg_batchsz :: int
  cfg_trimrel :: real
  cfg_wepochs :: int
  cfg_fepochs :: int
  cfg_fthesh :: int
  cfg_eepochs :: int
  cfg_ei0 :: real
  cfg_ebeta :: real
  cfg_egamma :: real

text \<open>
  The outcomes of the random draws made while one graph snapshot is measured: by
  \<^verbatim>\<open>simu_walk\<close>, by \<^verbatim>\<open>simu_intandfire\<close> and by \<^verbatim>\<open>simu_sis\<close>.
\<close>

record draws =
  d_startnode :: nat
  d_us :: "nat \<Rightarrow> real"
  d_charges :: "int list"
  d_choice :: "nat list"
  d_rvs :: "nat \<Rightarrow> (nat \<Rightarrow> real) \<times> (nat \<Rightarrow> real)"

text \<open>One row of the arrays \<^verbatim>\<open>run_experiment\<close> fills, for one batch index.\<close>

record batch_stats =
  degrees :: "int list"
  vvisit :: "int list"
  vfires :: "int list"
  vinfec :: "int list"
  lfires :: int
  linfec :: int
  nattempts :: nat

text \<open>The calls of the simulators, logged in the order in which they are made.\<close>

datatype sim_call = Call_simu_walk nat | Call_simu_intandfire nat | Call_simu_sis nat

text \<open>
  Lines 257 to 260 (and 269 to 272): the measurement of the snapshot \<open>g\<close> for the batch
  index \<open>i\<close>, after \<open>attempts\<close> removal attempts. An exception of a simulator ends the
  run. The trims and \<open>i0 = int(ei0*n)\<close> are those of lines 243 to 246.
\<close>

definition measure_snapshot :: "config \<Rightarrow> nat \<Rightarrow> graph \<Rightarrow> nat \<Rightarrow> draws \<Rightarrow> sim_call list
    \<Rightarrow> sim_call list \<times> (error + batch_stats)" where
  "measure_snapshot cfg i g attempts d calls =
     (let wtrim = py_int (of_int (cfg_wepochs cfg) * cfg_trimrel cfg);
          ftrim = py_int (of_int (cfg_fepochs cfg) * cfg_trimrel cfg);
          etrim = py_int (of_int (cfg_eepochs cfg) * cfg_trimrel cfg);
          i0 = py_int (cfg_ei0 cfg * of_int (cfg_n cfg));
          degs = degree g (cfg_degmode cfg);
          calls1 = calls @ [Call_simu_walk i]
      in case simu_walk i g (cfg_wepochs cfg) wtrim (d_startnode d) (d_us d) of
           Inl e \<Rightarrow> (calls1, Inl e)
         | Inr visits \<Rightarrow>
             (let calls2 = calls1 @ [Call_simu_intandfire i]
              in case simu_intandfire g (cfg_fthesh cfg) (cfg_fepochs cfg) ftrim (d_charges d) of
                   Inl e \<Rightarrow> (calls2, Inl e)
                 | Inr (fires, lf) \<Rightarrow>
                     (let calls3 = calls2 @ [Call_simu_sis i]
                      in case simu_sis g (cfg_ebeta cfg) (cfg_egamma cfg) i0 etrim
                                (cfg_eepochs cfg) (d_choice d) (d_rvs d) of
                           Inl e \<Rightarrow> (calls3, Inl e)
                         | Inr (ninfec, li) \<Rightarrow>
                             (calls3,
                              Inr \<lparr>degrees = degs, vvisit = visits, vfires = fires,
                                   vinfec = ninfec, lfires = lf, linfec = li,
                                   nattempts = attempts\<rparr>))))"

text \<open>
  The inner loop of lines 265 to 268: \<open>k\<close> removals left in step \<open>i\<close>, \<open>j\<close> removals made
  in it so far, \<open>orders j\<close> the shuffle of removal \<open>j\<close>, \<open>attempts\<close> the sum
  \<^verbatim>\<open>nattempts[i+1]\<close>. Any exception of \<^verbatim>\<open>remove_arc_conn\<close> is replaced by that of line 267.
\<close>

fun remove_batch :: "nat \<Rightarrow> (nat \<Rightarrow> nat list) \<Rightarrow> nat \<Rightarrow> nat \<Rightarrow> graph \<Rightarrow> nat
    \<Rightarrow> error + (graph \<times> nat)" where
  "remove_batch i orders 0 j g attempts = Inr (g, attempts)"
| "remove_batch i orders (Suc k) j g attempts =
     (case remove_arc_conn g (orders j) of
        Inl e \<Rightarrow> Inl (CouldNotRemoveArc i)
      | Inr (g', m) \<Rightarrow> remove_batch i orders k (Suc j) g' (attempts + m))"

text \<open>
  The loop of lines 262 to 272: \<open>k\<close> steps left, \<open>i\<close> the step; \<open>ds (i + 1)\<close> are the
  draws of the measurement after step \<open>i\<close> and \<open>orders i\<close> the shuffles of its removals.
\<close>

fun batch_loop :: "config \<Rightarrow> (nat \<Rightarrow> draws) \<Rightarrow> (nat \<Rightarrow> nat \<Rightarrow> nat list) \<Rightarrow> nat \<Rightarrow> nat \<Rightarrow> graph
    \<Rightarrow> batch_stats list \<Rightarrow> sim_call list \<Rightarrow> sim_call list \<times> (error + batch_stats list)" where
  "batch_loop cfg ds orders 0 i g rows calls = (calls, Inr rows)"
| "batch_loop cfg ds orders (Suc k) i g rows calls =
     (case remove_batch i (orders i) (nat (cfg_batchsz cfg)) 0 g 0 of
        Inl e \<Rightarrow> (calls, Inl e)
      | Inr (g', attempts) \<Rightarrow>
          (case measure_snapshot cfg (i + 1) g' attempts (ds (i + 1)) calls of
             (calls', Inl e) \<Rightarrow> (calls', Inl e)
           | (calls', Inr row) \<Rightarrow>
               batch_loop cfg ds orders k (i + 1) g' (rows @ [row]) calls'))"

text \<open>
  \<^verbatim>\<open>run_experiment\<close> from line 235 on, for the graph \<open>gorig\<close> that the generation loop
  has produced in \<open>tries\<close> attempts and \<^verbatim>\<open>to_directed\<close> has made directed. It returns
  the log of the simulator calls and either the exception raised or the rows of the
  arrays that lines 274 to 280 save. \<^verbatim>\<open>np.zeros(nbatches + 1)\<close> raises ValueError on a
  negative size and \<^verbatim>\<open>nattempts[0] = tries\<close> raises IndexError on an empty array.
  Plotting, saving and the correlations are not part of the model.
\<close>

definition run_experiment :: "config \<Rightarrow> nat \<Rightarrow> graph \<Rightarrow> (nat \<Rightarrow> draws) \<Rightarrow> (nat \<Rightarrow> nat \<Rightarrow> nat list)
    \<Rightarrow> sim_call list \<times> (error + batch_stats list)" where
  "run_experiment cfg tries gorig ds orders =
     (if cfg_nbatches cfg + 1 < 0 then ([], Inl ValueError)
      else if cfg_nbatches cfg + 1 = 0 then ([], Inl IndexError)
      else
        case initial_check (cfg_nbatches cfg) (cfg_batchsz cfg) gorig of
          Inl e \<Rightarrow> ([], Inl e)
        | Inr _ \<Rightarrow>
            (case measure_snapshot cfg 0 gorig tries (ds 0) [] of
               (calls, Inl e) \<Rightarrow> (calls, Inl e)
             | (calls, Inr row) \<Rightarrow>
                 batch_loop cfg ds orders (nat (cfg_nbatches cfg)) 0 gorig [row] calls))"

text \<open>Concrete draws and a concrete configuration, for runs of the model.\<close>

definition fixed_draws :: "nat \<Rightarrow> draws" where
  "fixed_draws i =
     \<lparr>d_startnode = 0, d_us = const_draw 0, d_charges = [1, 0], d_choice = [0],
      d_rvs = const_draws (9/10) (1/10)\<rparr>"

definition fixed_orders :: "nat \<Rightarrow> nat \<Rightarrow> nat list" where
  "fixed_orders i j = [0, 1, 2, 3, 4]"

definition small_config :: "int \<Rightarrow> int \<Rightarrow> config" where
  "small_config nb bs =
     \<lparr>cfg_n = 2, cfg_degmode = Deg_out, cfg_nbatches = nb, cfg_batchsz = bs, cfg_trimrel = 1/2,
      cfg_wepochs = 4, cfg_fepochs = 4, cfg_fthesh = 1, cfg_eepochs = 4,
      cfg_ei0 = 1/2, cfg_ebeta = 1/2, cfg_egamma = 1/2\<rparr>"


section \<open>The firing simulator: the operator, the tick and the two loops\<close>








lemma count_sum_edges:
  assumes "list_all (\<lambda>(u, w). u < (n::nat) \<and> w < n) es"
  shows "(\<Sum>j<n. int (count_list es (j, v)) * of_bool (P j))
         = sum_list (map (\<lambda>(u, w). if w = v \<and> P u then 1 else 0) es)"
  using assms
proof (induction es)
  case Nil then show ?case by simp
next
  case (Cons e es)
  obtain u w where e: "e = (u, w)" by (cases e)
  from Cons.prems e have un: "u < n" by simp
  have IH: "(\<Sum>j<n. int (count_list es (j, v)) * of_bool (P j))
         = sum_list (map (\<lambda>(u, w). if w = v \<and> P u then 1 else 0) es)"
    using Cons by simp
  have "(\<Sum>j<n. int (count_list (e # es) (j, v)) * of_bool (P j))
      = (\<Sum>j<n. (if j = u \<and> w = v then of_bool (P j) else 0) + int (count_list es (j, v)) * of_bool (P j))"
    by (rule sum.cong) (auto simp: e)
  also have "\<dots> = (\<Sum>j<n. (if j = u \<and> w = v then of_bool (P j) else 0))
                  + (\<Sum>j<n. int (count_list es (j, v)) * of_bool (P j))"
    by (simp add: sum.distrib)
  also have "(\<Sum>j<n. (if j = u \<and> w = v then of_bool (P j) else 0)) = (if w = v \<and> P u then 1 else (0::int))"
    using un by (cases "w = v") (simp_all add: sum.delta)
  finally show ?case using IH by (simp add: e)
qed










section \<open>Claims on the firing simulator\<close>





text \<open>
  Claim C2. On an empty edge list the construction of the incoming-adjacency operator
  (lines 43 to 46) does not return the zero operator: the unpacking of
  \<^verbatim>\<open>zip(*edges)\<close> raises ValueError, and so does \<^verbatim>\<open>simu_intandfire\<close>. On a
  non-empty edge list the operator is the one claimed (\<open>sparse_propagator_eq\<close>).
\<close>

theorem sparse_propagator_empty_edgelist:
  "sparse_propagator \<lparr>vcount = n, edgelist = []\<rparr> = Inl ValueError
   \<and> simu_intandfire \<lparr>vcount = n, edgelist = []\<rparr> 1 tmax trimsz initial_charges = Inl ValueError"
  by (simp add: sparse_propagator_def simu_intandfire_def)

section \<open>The epidemic simulator: status vectors stay 0/1\<close>

lemma length_assign_at [simp]: "length (assign_at a inds c) = length a"
  unfolding assign_at_def by (induction inds arbitrary: a) simp_all

lemma assign_at_nth:
  "v < length a \<Longrightarrow> assign_at a inds c ! v = (if v \<in> set inds then c else a ! v)"
  unfolding assign_at_def
proof (induction inds arbitrary: a)
  case Nil show ?case by simp
next
  case (Cons i inds)
  then show ?case by (auto simp: nth_list_update)
qed

lemma binary_iff: "binary s \<longleftrightarrow> (\<forall>v < length s. s ! v = 0 \<or> s ! v = 1)"
  by (simp add: binary_def list_all_length)

lemma binary_assign_at:
  "binary a \<Longrightarrow> c = 0 \<or> c = 1 \<Longrightarrow> binary (assign_at a inds c)"
  by (auto simp: binary_iff assign_at_nth)

lemma binary_replicate: "binary (replicate n 0)"
  by (simp add: binary_def list_all_length)

lemma length_np_where: "length (np_where bs) = length (filter (\<lambda>b. b) bs)"
proof -
  have "filter (\<lambda>b. b) bs = filter (\<lambda>b. b) (map ((!) bs) [0..<length bs])"
    by (simp add: map_nth)
  then show ?thesis by (simp add: np_where_def filter_map o_def)
qed

lemma set_np_where: "set (np_where bs) = {i. i < length bs \<and> bs ! i}"
  by (auto simp: np_where_def)

lemma binary_sum:
  "binary s \<Longrightarrow> sum_list s = int (length (filter (\<lambda>b. b) (map (\<lambda>x. x \<noteq> 0) s)))"
  by (induction s) (auto simp: binary_def)

lemma binary_sum_bounds: "binary s \<Longrightarrow> 0 \<le> sum_list s \<and> sum_list s \<le> int (length s)"
  by (induction s) (auto simp: binary_def)

lemma recovery_binary:
  assumes "binary status0"
  shows "\<exists>status1. recovery status0 gamma rv = Inr status1 \<and> binary status1
            \<and> length status1 = length status0
            \<and> (\<forall>v < length status0. status0 ! v = 0 \<longrightarrow> status1 ! v = 0)"
proof -
  let ?infinds = "np_where (map (\<lambda>s. s \<noteq> 0) status0)"
  let ?lucky = "map (\<lambda>r. r < gamma) (map rv [0..<nat (sum_list status0)])"
  have k: "nat (sum_list status0) = length ?infinds"
    using binary_sum [OF assms] by (simp add: length_np_where)
  have "\<not> list_ex (\<lambda>i. length ?infinds \<le> i) (np_where ?lucky)"
    using k by (auto simp: list_ex_iff set_np_where)
  moreover have "\<not> sum_list status0 < 0" using binary_sum_bounds [OF assms] by simp
  ultimately have eq: "recovery status0 gamma rv =
      Inr (assign_at status0 (map ((!) ?infinds) (np_where ?lucky)) 0)"
    by (simp add: recovery_def Let_def)
  show ?thesis
    using eq binary_assign_at [OF assms, of 0] by (simp add: assign_at_nth)
qed

lemma infection_binary:
  assumes "binary status1" "length status1 = length adj"
  shows "\<exists>status2. infection adj status1 beta rv = Inr status2 \<and> binary status2
            \<and> length status2 = length status1"
  using assms binary_assign_at [OF assms(1), of 1]
  by (simp add: infection_def Let_def)

lemma infection_step_binary:
  assumes "binary status0" "length status0 = length adj"
  shows "\<exists>status2 newinf. infection_step adj status0 beta gamma rv1 rv2 = Inr (status2, newinf)
            \<and> binary status2 \<and> length status2 = length status0 \<and> length newinf = length status0"
proof -
  obtain status1 where r: "recovery status0 gamma rv1 = Inr status1" "binary status1"
      "length status1 = length status0"
    using recovery_binary [OF assms(1)] by blast
  obtain status2 where i: "infection adj status1 beta rv2 = Inr status2" "binary status2"
      "length status2 = length status1"
    using infection_binary [OF r(2), of adj] r(3) assms(2) by auto
  show ?thesis using r i by (simp add: infection_step_def)
qed

lemma sis_burnin_binary:
  assumes "binary status" "length status = length adj"
  shows "\<exists>s. sis_burnin adj beta gamma rvs k t status = Inr s \<and> binary s
            \<and> length s = length status"
  using assms
proof (induction k arbitrary: t status)
  case 0 then show ?case by simp
next
  case (Suc k)
  obtain s2 d where st: "infection_step adj status beta gamma (fst (rvs t)) (snd (rvs t)) = Inr (s2, d)"
      "binary s2" "length s2 = length status"
    using infection_step_binary [OF Suc.prems] by blast
  show ?case
    using Suc.IH [of s2 "Suc t"] st Suc.prems by simp
qed

lemma set_initial_status_binary:
  assumes "0 \<le> i0" "i0 \<le> int n" "\<forall>c \<in> set choice. c < n"
  shows "\<exists>s. set_initial_status n i0 choice = Inr s \<and> binary s \<and> length s = n"
proof -
  have "\<not> list_ex (\<lambda>c. n \<le> c) choice" using assms(3) by (auto simp: list_ex_iff)
  then show ?thesis
    using assms(1,2) binary_assign_at [OF binary_replicate, of 1 n choice]
    by (simp add: set_initial_status_def Let_def)
qed

lemma indicator_sum_length:
  "sum_list (map (\<lambda>x. if Q x then 1 else 0) xs) = int (length (filter Q xs))"
  by (induction xs) simp_all

text \<open>
  On the adjacency matrix of a graph, \<open>kins\<close> counts the edges that enter a vertex from
  vertices infected after the recovery.
\<close>

lemma kins_of_in_neighbours:
  assumes "wf_graph g" "length status1 = vcount g" "v < vcount g"
  shows "kins_of (get_adjacency g) status1 ! v
           = length (filter (\<lambda>(u, w). w = v \<and> status1 ! u \<noteq> 0) (edgelist g))"
proof -
  let ?n = "vcount g" and ?es = "edgelist g"
  let ?P = "\<lambda>u. status1 ! u \<noteq> 0"
  have wf: "list_all (\<lambda>(u, w). u < ?n \<and> w < ?n) ?es" using assms(1) by (simp add: wf_graph_def)
  have inf: "np_where (map (\<lambda>s. s \<noteq> 0) status1) = filter ?P [0..<?n]"
    using assms(2) by (auto simp: np_where_def intro: filter_cong)
  have "kins_of (get_adjacency g) status1 ! v
      = sum_list (map (\<lambda>u. get_adjacency g ! u ! v) (filter ?P [0..<?n]))"
    using assms(3) by (simp add: kins_of_def Let_def inf o_def get_adjacency_def)
  also have "\<dots> = sum_list (map (\<lambda>u. count_list ?es (u, v)) (filter ?P [0..<?n]))"
    using assms(3) by (intro arg_cong [where f = sum_list] map_cong refl)
      (simp add: get_adjacency_def)
  also have "\<dots> = sum_list (map (\<lambda>u. if ?P u then count_list ?es (u, v) else 0) [0..<?n])"
    by (simp add: sum_list_map_filter')
  finally have k: "kins_of (get_adjacency g) status1 ! v
      = (\<Sum>u<?n. if ?P u then count_list ?es (u, v) else 0)"
    by (simp add: interv_sum_list_conv_sum_set_nat atLeast0LessThan)
  have "int (\<Sum>u<?n. if ?P u then count_list ?es (u, v) else 0)
      = (\<Sum>u<?n. int (count_list ?es (u, v)) * of_bool (?P u))"
    unfolding of_nat_sum by (rule sum.cong) auto
  then have "int (kins_of (get_adjacency g) status1 ! v)
      = (\<Sum>u<?n. int (count_list ?es (u, v)) * of_bool (?P u))"
    by (simp only: k)
  also have "\<dots> = sum_list (map (\<lambda>(u, w). if w = v \<and> ?P u then 1 else 0) ?es)"
    by (rule count_sum_edges [OF wf])
  also have "\<dots> = int (length (filter (\<lambda>(u, w). w = v \<and> ?P u) ?es))"
    using indicator_sum_length [of "\<lambda>(u, w). w = v \<and> ?P u" ?es]
    by (simp add: case_prod_unfold)
  finally show ?thesis by simp
qed


section \<open>Claims on the epidemic simulator\<close>

lemma sis_measure_binary:
  assumes "binary status" "length status = length adj"
  shows "\<exists>s ni nf. sis_measure adj beta gamma rvs k t (status, newinf, ninfec) = Inr (s, ni, nf)
            \<and> binary s \<and> length s = length status \<and> (k = 0 \<longrightarrow> ni = newinf)"
  using assms
proof (induction k arbitrary: t status newinf ninfec)
  case 0 then show ?case by simp
next
  case (Suc k)
  obtain s2 d where st: "infection_step adj status beta gamma (fst (rvs t)) (snd (rvs t)) = Inr (s2, d)"
      "binary s2" "length s2 = length status"
    using infection_step_binary [OF Suc.prems] by blast
  obtain s ni nf where "sis_measure adj beta gamma rvs k (Suc t) (s2, Some d, map2 (+) ninfec d) = Inr (s, ni, nf)"
      "binary s" "length s = length s2"
    using Suc.IH [of s2 "Suc t" "Some d" "map2 (+) ninfec d"] st Suc.prems by auto
  then show ?case using st by simp
qed

text \<open>
  Claim C8. For every \<open>n \<times> n\<close> adjacency matrix and all \<open>beta\<close>, \<open>gamma\<close> and draws, a
  tick of \<^verbatim>\<open>infection_step\<close> on a 0/1 status vector returns a 0/1 status vector, whose
  sum lies between 0 and \<open>n\<close>; the vector of \<^verbatim>\<open>set_initial_status\<close> is 0/1, and so is the
  status after any number of ticks of the burn-in loop and of the measurement loop of
  \<^verbatim>\<open>simu_sis\<close>, none of which raises.
\<close>

theorem sis_status_stays_binary:
  assumes "square_matrix n adj" "0 \<le> i0" "i0 \<le> int n" "\<forall>c \<in> set choice. c < n"
  shows "(\<forall>status. binary status \<and> length status = n \<longrightarrow>
            (\<exists>status2 newinf. infection_step adj status beta gamma rv1 rv2 = Inr (status2, newinf)
               \<and> binary status2 \<and> length status2 = n
               \<and> 0 \<le> sum_list status2 \<and> sum_list status2 \<le> int n))
       \<and> (\<exists>status0. set_initial_status n i0 choice = Inr status0 \<and> binary status0
             \<and> length status0 = n
             \<and> (\<forall>k t. \<exists>s. sis_burnin adj beta gamma rvs k t status0 = Inr s
                    \<and> binary s \<and> length s = n \<and> 0 \<le> sum_list s \<and> sum_list s \<le> int n)
             \<and> (\<forall>k t j newinf ninfec. \<exists>s s' ni nf.
                    sis_burnin adj beta gamma rvs j 0 status0 = Inr s
                    \<and> sis_measure adj beta gamma rvs k t (s, newinf, ninfec) = Inr (s', ni, nf)
                    \<and> binary s' \<and> length s' = n \<and> 0 \<le> sum_list s' \<and> sum_list s' \<le> int n))"
proof (intro conjI allI impI)
  have la: "length adj = n" using assms(1) by (simp add: square_matrix_def)
  fix status assume "binary status \<and> length status = n"
  then have b: "binary status" and l: "length status = length adj" using la by simp_all
  obtain s2 d where "infection_step adj status beta gamma rv1 rv2 = Inr (s2, d)"
      "binary s2" "length s2 = length status"
    using infection_step_binary [OF b l] by blast
  then show "\<exists>status2 newinf. infection_step adj status beta gamma rv1 rv2 = Inr (status2, newinf)
               \<and> binary status2 \<and> length status2 = n
               \<and> 0 \<le> sum_list status2 \<and> sum_list status2 \<le> int n"
    using binary_sum_bounds [of s2] l la by auto
next
  have la: "length adj = n" using assms(1) by (simp add: square_matrix_def)
  obtain status0 where s0: "set_initial_status n i0 choice = Inr status0" "binary status0"
      "length status0 = n"
    using set_initial_status_binary [OF assms(2,3,4)] by blast
  have l0: "length status0 = length adj" using s0(3) la by simp
  have burn: "\<exists>s. sis_burnin adj beta gamma rvs k t status0 = Inr s
                    \<and> binary s \<and> length s = n \<and> 0 \<le> sum_list s \<and> sum_list s \<le> int n" for k t
  proof -
    obtain s where "sis_burnin adj beta gamma rvs k t status0 = Inr s" "binary s"
        "length s = length status0"
      using sis_burnin_binary [OF s0(2) l0] by blast
    then show ?thesis using binary_sum_bounds [of s] s0(3) by auto
  qed
  have meas: "\<exists>s s' ni nf.
                    sis_burnin adj beta gamma rvs j 0 status0 = Inr s
                    \<and> sis_measure adj beta gamma rvs k t (s, newinf, ninfec) = Inr (s', ni, nf)
                    \<and> binary s' \<and> length s' = n \<and> 0 \<le> sum_list s' \<and> sum_list s' \<le> int n"
    for k t j newinf ninfec
  proof -
    obtain s where s: "sis_burnin adj beta gamma rvs j 0 status0 = Inr s" "binary s" "length s = n"
      using burn by blast
    have ls: "length s = length adj" using s(3) la by simp
    obtain s' ni nf where "sis_measure adj beta gamma rvs k t (s, newinf, ninfec) = Inr (s', ni, nf)"
        "binary s'" "length s' = length s"
      using sis_measure_binary [OF s(2) ls] by blast
    then show ?thesis using s binary_sum_bounds [of s'] by auto
  qed
  from s0 burn meas
  show "\<exists>status0. set_initial_status n i0 choice = Inr status0 \<and> binary status0
             \<and> length status0 = n
             \<and> (\<forall>k t. \<exists>s. sis_burnin adj beta gamma rvs k t status0 = Inr s
                    \<and> binary s \<and> length s = n \<and> 0 \<le> sum_list s \<and> sum_list s \<le> int n)
             \<and> (\<forall>k t j newinf ninfec. \<exists>s s' ni nf.
                    sis_burnin adj beta gamma rvs j 0 status0 = Inr s
                    \<and> sis_measure adj beta gamma rvs k t (s, newinf, ninfec) = Inr (s', ni, nf)
                    \<and> binary s' \<and> length s' = n \<and> 0 \<le> sum_list s' \<and> sum_list s' \<le> int n)"
    by blast
qed

theorem sis_status_stays_binary_witness:
  "set_initial_status 2 1 [0] = Inr [1, 0]
   \<and> infection_step [[0, 1], [1, 0]] [1, 0] (1/2) (1/2) (const_draw (9/10)) (const_draw (1/10))
       = Inr ([1, 1], [0, 1])
   \<and> binary [1, 1]"
proof -
  have h1: "square_matrix 2 [[0, 1], [1, 0]]" by (simp add: square_matrix_def)
  have h2: "(0::int) \<le> 1" by simp
  have h3: "(1::int) \<le> int 2" by simp
  have h4: "\<forall>c \<in> set [0::nat]. c < 2" by simp
  have b: "binary [1, 0] \<and> length [1, 0 :: int] = 2" by (simp add: binary_def)
  have e: "infection_step [[0, 1], [1, 0]] [1, 0] (1/2) (1/2) (const_draw (9/10)) (const_draw (1/10))
       = Inr ([1, 1], [0, 1])"
    by code_simp
  have "\<exists>status2 newinf.
      infection_step [[0, 1], [1, 0]] [1, 0] (1/2) (1/2) (const_draw (9/10)) (const_draw (1/10))
        = Inr (status2, newinf) \<and> binary status2"
    using sis_status_stays_binary [OF h1 h2 h3 h4] b by blast
  then have "binary [1, 1]" using e by simp
  moreover have "set_initial_status 2 1 [0] = Inr [1, 0]" by code_simp
  ultimately show ?thesis using e by simp
qed

lemma probs_of_beta_zero: "probs_of 0 kins = replicate (length kins) 0"
  by (simp add: probs_of_def map_replicate_const)

lemma np_where_all_False: "np_where (replicate n False) = []"
  by (simp add: np_where_def filter_empty_conv)

lemma infection_beta_zero:
  "length status1 = length adj \<Longrightarrow> infection adj status1 0 rv = Inr status1"
  by (simp add: infection_def Let_def probs_of_beta_zero map_replicate_const np_where_all_False
      np_where_def assign_at_def)

lemma map2_minus_self: "map2 (-) (s::int list) s = replicate (length s) 0"
  by (induction s) simp_all

lemma infection_nth:
  assumes "infection adj status1 beta rv = Inr status2" "v < length adj"
      and "probs_of beta (kins_of adj status1) ! v = 0"
  shows "status2 ! v = status1 ! v"
proof -
  let ?probs = "probs_of beta (kins_of adj status1)"
  let ?pp = "np_where (map (\<lambda>p. p \<noteq> 0) ?probs)"
  let ?posprobs = "map ((!) ?probs) ?pp"
  let ?rel = "np_where (map2 (<) (map rv [0..<length ?posprobs]) ?posprobs)"
  have l: "length status1 = length adj" and
    eq: "status2 = assign_at status1 (map ((!) ?pp) ?rel) 1"
    using assms(1) by (auto simp: infection_def Let_def split: if_splits)
  have "set ?rel \<subseteq> {..<length ?pp}" by (auto simp: set_np_where)
  then have "set (map ((!) ?pp) ?rel) \<subseteq> set ?pp" by (auto simp: subset_iff)
  moreover have "v \<notin> set ?pp" using assms(3) by (simp add: set_np_where)
  ultimately have "v \<notin> set (map ((!) ?pp) ?rel)" by blast
  then show ?thesis using eq l assms(2) by (simp add: assign_at_nth)
qed

lemma probs_of_kin_zero:
  "v < length kins \<Longrightarrow> kins ! v = 0 \<Longrightarrow> probs_of beta kins ! v = 0"
  by (simp add: probs_of_def)

lemma length_kins_of: "length (kins_of adj status1) = length adj"
  by (simp add: kins_of_def Let_def)

text \<open>
  Claim C7. With \<open>beta = 0\<close> a tick infects nobody: the returned vector of new infections
  is zero and every vertex susceptible before the tick is susceptible after it. For
  every \<open>beta\<close>, a vertex whose count \<open>kin\<close> of infected in-neighbours after the recovery
  is 0 has infection probability exactly 0, keeps its status and is not newly infected
  (\<open>kin\<close> is the number of edges entering the vertex from infected vertices, by
  \<open>kins_of_in_neighbours\<close>).
\<close>

theorem no_infection_without_pressure:
  assumes "binary status0" "length status0 = length adj"
  shows "(\<exists>status2. infection_step adj status0 0 gamma rv1 rv2
              = Inr (status2, replicate (length adj) 0)
            \<and> (\<forall>v < length adj. status0 ! v = 0 \<longrightarrow> status2 ! v = 0))
       \<and> (\<exists>status1 status2 newinf.
              recovery status0 gamma rv1 = Inr status1
            \<and> infection_step adj status0 beta gamma rv1 rv2 = Inr (status2, newinf)
            \<and> (\<forall>v < length adj. kins_of adj status1 ! v = 0 \<longrightarrow>
                  probs_of beta (kins_of adj status1) ! v = 0
                  \<and> status2 ! v = status1 ! v \<and> newinf ! v = 0))"
proof
  obtain status1 where r: "recovery status0 gamma rv1 = Inr status1"
      "length status1 = length status0"
      "\<forall>v < length status0. status0 ! v = 0 \<longrightarrow> status1 ! v = 0"
    using recovery_binary [OF assms(1)] by blast
  have l1: "length status1 = length adj" using r(2) assms(2) by simp
  have "infection_step adj status0 0 gamma rv1 rv2 = Inr (status1, replicate (length adj) 0)"
    using r(1) l1 by (simp add: infection_step_def infection_beta_zero map2_minus_self)
  then show "\<exists>status2. infection_step adj status0 0 gamma rv1 rv2
              = Inr (status2, replicate (length adj) 0)
            \<and> (\<forall>v < length adj. status0 ! v = 0 \<longrightarrow> status2 ! v = 0)"
    using r(3) assms(2) by simp
next
  obtain status1 where r: "recovery status0 gamma rv1 = Inr status1" "binary status1"
      "length status1 = length status0"
    using recovery_binary [OF assms(1)] by blast
  have l1: "length status1 = length adj" using r(3) assms(2) by simp
  obtain status2 where i: "infection adj status1 beta rv2 = Inr status2"
      "length status2 = length status1"
    using infection_binary [OF r(2) l1] by blast
  have step: "infection_step adj status0 beta gamma rv1 rv2 = Inr (status2, map2 (-) status2 status1)"
    using r(1) i(1) by (simp add: infection_step_def)
  have "probs_of beta (kins_of adj status1) ! v = 0
        \<and> status2 ! v = status1 ! v \<and> map2 (-) status2 status1 ! v = 0"
    if "v < length adj" "kins_of adj status1 ! v = 0" for v
  proof -
    have p: "probs_of beta (kins_of adj status1) ! v = 0"
      using that by (simp add: probs_of_kin_zero length_kins_of)
    have "status2 ! v = status1 ! v" using infection_nth [OF i(1) that(1) p] .
    then show ?thesis using p that(1) i(2) l1 by simp
  qed
  with r(1) step
  show "\<exists>status1 status2 newinf.
              recovery status0 gamma rv1 = Inr status1
            \<and> infection_step adj status0 beta gamma rv1 rv2 = Inr (status2, newinf)
            \<and> (\<forall>v < length adj. kins_of adj status1 ! v = 0 \<longrightarrow>
                  probs_of beta (kins_of adj status1) ! v = 0
                  \<and> status2 ! v = status1 ! v \<and> newinf ! v = 0)"
    by blast
qed

theorem no_infection_without_pressure_witness:
  "infection_step [[0, 1], [1, 0]] [1, 0] 0 (1/2) (const_draw (9/10)) (const_draw (1/10))
     = Inr ([1, 0], [0, 0])"
proof -
  have h1: "binary [1, 0]" by (simp add: binary_def)
  have h2: "length [1, 0 :: int] = length [[0, 1], [1, 0 :: nat]]" by simp
  obtain status2 where
    "infection_step [[0, 1], [1, 0]] [1, 0] 0 (1/2) (const_draw (9/10)) (const_draw (1/10))
       = Inr (status2, replicate (length [[0, 1], [1, 0 :: nat]]) 0)"
    using no_infection_without_pressure [OF h1 h2] by blast
  moreover have "infection_step [[0, 1], [1, 0]] [1, 0] 0 (1/2) (const_draw (9/10)) (const_draw (1/10))
     = Inr ([1, 0], [0, 0])"
    by code_simp
  ultimately show ?thesis by simp
qed

section \<open>Runs without a measured tick\<close>



section \<open>The random walk\<close>

lemma row_sum_out_degree:
  assumes "wf_graph g" "v < vcount g"
  shows "sum_list (get_adjacency g ! v) = out_degree g v"
proof -
  have "list_all (\<lambda>(a, b). a < vcount g \<and> b < vcount g) es \<Longrightarrow>
        sum_list (map (\<lambda>j. count_list es (v, j)) [0..<vcount g])
          = length (filter (\<lambda>(a, b). a = v) es)" for es
  proof (induction es)
    case Nil show ?case by simp
  next
    case (Cons e es)
    obtain a b where e: "e = (a, b)" by (cases e)
    from Cons.prems e have b: "b < vcount g" by simp
    have "sum_list (map (\<lambda>j. count_list (e # es) (v, j)) [0..<vcount g])
        = (\<Sum>j<vcount g. (if j = b \<and> a = v then 1 else 0) + count_list es (v, j))"
      by (auto simp: e interv_sum_list_conv_sum_set_nat atLeast0LessThan intro!: sum.cong)
    also have "\<dots> = (\<Sum>j<vcount g. if j = b \<and> a = v then 1 else 0)
                    + (\<Sum>j<vcount g. count_list es (v, j))"
      by (simp add: sum.distrib)
    also have "(\<Sum>j<vcount g. if j = b \<and> a = v then 1 else 0) = (if a = v then 1 else (0::nat))"
      using b by (cases "a = v") (simp_all add: sum.delta)
    also have "(\<Sum>j<vcount g. count_list es (v, j))
        = sum_list (map (\<lambda>j. count_list es (v, j)) [0..<vcount g])"
      by (simp add: interv_sum_list_conv_sum_set_nat atLeast0LessThan)
    finally show ?case using Cons by (simp add: e)
  qed
  then show ?thesis
    using assms by (simp add: get_adjacency_def out_degree_def wf_graph_def)
qed

lemma sum_list_divide_const:
  "sum_list (map (\<lambda>a. real a / d) row) = real (sum_list row) / d"
  by (induction row) (simp_all add: add_divide_distrib)

lemma last_cumsum: "p \<noteq> [] \<Longrightarrow> last (cumsum p) = sum_list p"
  by (simp add: cumsum_def last_map)

lemma length_cumsum [simp]: "length (cumsum p) = length p"
  by (simp add: cumsum_def)

lemma choice_p_in_range:
  assumes "length row = n" "0 < n" "0 < sum_list row" "u < 1"
  shows "\<exists>j. choice_p n (Some (map (\<lambda>a. real a / real (sum_list row)) row)) u = Inr j \<and> j < n"
proof -
  let ?ps = "map (\<lambda>a. real a / real (sum_list row)) row"
  let ?cdf = "cumsum ?ps"
  let ?cdf' = "map (\<lambda>c. c / last ?cdf) ?cdf"
  have ne: "?ps \<noteq> []" using assms(1,2) by auto
  have "0 < real (sum_list row)" using assms(3) by (simp only: of_nat_0_less_iff)
  then have nz: "real (sum_list row) \<noteq> 0" by linarith
  have "last ?cdf = real (sum_list row) / real (sum_list row)"
    unfolding last_cumsum [OF ne] by (rule sum_list_divide_const)
  also have "\<dots> = 1" using nz by (rule divide_self)
  finally have l1: "last ?cdf = 1" .
  have cne: "?cdf \<noteq> []" using ne by (simp add: cumsum_def)
  have "last ?cdf' = last ?cdf / last ?cdf" using cne by (rule last_map)
  then have "last ?cdf' = 1" unfolding l1 by simp
  moreover have "last ?cdf' \<in> set ?cdf'" using cne by (intro last_in_set) simp
  ultimately have "length (filter (\<lambda>c. c \<le> u) ?cdf') < length ?cdf'"
    using assms(4) by (intro length_filter_less [of "last ?cdf'"]) simp_all
  then show ?thesis using assms(1,2) by (simp add: choice_p_def Let_def)
qed

lemma walk_loop_ok:
  assumes "length transm = n" "0 < n"
      and "\<And>v. v < n \<Longrightarrow> \<exists>row. transm ! v = Some (map (\<lambda>a. real a / real (sum_list row)) row)
                \<and> length row = n \<and> 0 < sum_list row"
      and "\<And>i. us i < 1"
      and "length walk = Suc i" "\<forall>x \<in> set walk. x < n"
  shows "\<exists>walk'. walk_loop transm us k i walk = Inr walk' \<and> length walk' = Suc i + k
            \<and> (\<forall>x \<in> set walk'. x < n)"
  using assms(5,6)
proof (induction k arbitrary: i walk)
  case 0 then show ?case by simp
next
  case (Suc k)
  have v: "walk ! i < n" using Suc.prems by simp
  obtain row where row: "transm ! (walk ! i) = Some (map (\<lambda>a. real a / real (sum_list row)) row)"
      "length row = n" "0 < sum_list row"
    using assms(3) [OF v] by blast
  obtain j where j: "choice_p n (transm ! (walk ! i)) (us i) = Inr j" "j < n"
    using choice_p_in_range [OF row(2) assms(2) row(3) assms(4)] row(1) by auto
  have "length (walk @ [j]) = Suc (Suc i)" "\<forall>x \<in> set (walk @ [j]). x < n"
    using Suc.prems j(2) by auto
  from Suc.IH [OF this] show ?case
    using v j(1) assms(1) by (simp add: Let_def)
qed

lemma assign_counts_ok:
  assumes "\<forall>v \<in> set vs. v < length visits"
  shows "\<exists>r. assign_counts (zip vs (map f vs)) visits = Inr r \<and> length r = length visits
           \<and> (\<forall>v < length visits. r ! v = (if v \<in> set vs then int (f v) else visits ! v))"
  using assms
proof (induction vs arbitrary: visits)
  case Nil then show ?case by simp
next
  case (Cons a vs)
  have "\<forall>v \<in> set vs. v < length (visits[a := int (f a)])" using Cons.prems by simp
  from Cons.IH [OF this] obtain r where
    r: "assign_counts (zip vs (map f vs)) (visits[a := int (f a)]) = Inr r"
       "length r = length visits"
       "\<forall>v < length visits. r ! v = (if v \<in> set vs then int (f v) else visits[a := int (f a)] ! v)"
    by auto
  show ?case using r Cons.prems by (auto simp: nth_list_update)
qed

lemma sum_counts:
  assumes "\<forall>x \<in> set w. x < n"
  shows "sum_list (map (\<lambda>v. int (count_list w v)) [0..<n]) = int (length w)"
proof -
  have "sum (count_list w) {..<n} = length w"
    using assms by (intro sum_count_set) auto
  then have "int (\<Sum>v<n. count_list w v) = int (length w)" by simp
  then show ?thesis
    by (simp add: interv_sum_list_conv_sum_set_nat atLeast0LessThan)
qed

lemma visits_sum:
  assumes "\<forall>x \<in> set w. x < n"
  shows "\<exists>visits. assign_counts (zip (sort (remdups w)) (map (count_list w) (sort (remdups w))))
                      (replicate n 0) = Inr visits
           \<and> length visits = n \<and> sum_list visits = int (length w)"
proof -
  let ?vs = "sort (remdups w)"
  have "\<forall>v \<in> set ?vs. v < length (replicate n (0::int))" using assms by simp
  from assign_counts_ok [OF this, of "count_list w"] obtain r where
    r: "assign_counts (zip ?vs (map (count_list w) ?vs)) (replicate n 0) = Inr r"
       "length r = n"
       "\<forall>v < n. r ! v = (if v \<in> set ?vs then int (count_list w v) else 0)"
    by auto
  have "r = map (\<lambda>v. int (count_list w v)) [0..<n]"
    using r(2,3) by (intro nth_equalityI) (auto simp: count_list_0_iff)
  then have "sum_list r = int (length w)" using sum_counts [OF assms] by simp
  with r show ?thesis by blast
qed

section \<open>Claim on the random walk\<close>

text \<open>
  Claim C1, as amended. On a graph in which every vertex has positive degree, for
  \<open>0 \<le> trimsz \<le> walklen\<close>, every start vertex and all uniform draws,
  \<^verbatim>\<open>simu_walk\<close> returns a vector of length \<open>n\<close> whose sum is \<open>walklen + 1 - trimsz\<close>:
  the walk array holds the start vertex and the \<open>walklen\<close> vertices stepped to.
\<close>

theorem simu_walk_visits_sum:
  assumes "wf_graph g" "positive_degrees g" "startnode < vcount g" "uniform_draws us"
      and "0 \<le> trimsz" "trimsz \<le> walklen"
  shows "\<exists>visits. simu_walk idx g walklen trimsz startnode us = Inr visits
           \<and> length visits = vcount g \<and> sum_list visits = walklen + 1 - trimsz"
proof -
  let ?n = "vcount g"
  let ?adj = "get_adjacency g"
  let ?t = "trans_of ?adj"
  have n: "0 < ?n" using assms(3) by simp
  have lt: "length ?t = ?n" by (simp add: trans_of_def get_adjacency_def)
  have rows: "\<exists>row. ?t ! v = Some (map (\<lambda>a. real a / real (sum_list row)) row)
                \<and> length row = ?n \<and> 0 < sum_list row" if "v < ?n" for v
  proof -
    have "0 < out_degree g v" using assms(2) that by (simp add: positive_degrees_def list_all_iff)
    then have pos: "0 < sum_list (?adj ! v)" using row_sum_out_degree [OF assms(1) that] by simp
    have len: "length (?adj ! v) = ?n" using that by (simp add: get_adjacency_def)
    have "?t ! v = Some (map (\<lambda>a. real a / real (sum_list (?adj ! v))) (?adj ! v))"
      using that pos by (simp add: trans_of_def Let_def get_adjacency_def del: sum_list_eq_0_iff)
    with len pos show ?thesis by blast
  qed
  have us: "us i < 1" for i using assms(4) by (simp add: uniform_draws_def)
  have w0: "length [startnode] = Suc 0" "\<forall>x \<in> set [startnode]. x < ?n" using assms(3) by simp_all
  have "\<exists>walk'. walk_loop ?t us (nat walklen) 0 [startnode] = Inr walk'
            \<and> length walk' = Suc 0 + nat walklen \<and> (\<forall>x \<in> set walk'. x < ?n)"
  proof (rule walk_loop_ok [OF lt n _ _ w0])
    fix v assume "v < ?n"
    then show "\<exists>row. ?t ! v = Some (map (\<lambda>a. real a / real (sum_list row)) row)
                \<and> length row = ?n \<and> 0 < sum_list row"
      by (rule rows)
  next
    fix i show "us i < 1" by (rule us)
  qed
  then obtain walk where walk: "walk_loop ?t us (nat walklen) 0 [startnode] = Inr walk"
      "length walk = Suc 0 + nat walklen" "\<forall>x \<in> set walk. x < ?n"
    by blast
  have wl: "0 \<le> walklen" using assms(5,6) by simp
  have rw: "randomwalk walklen startnode ?t us = Inr walk"
    using walk(1) wl by (simp add: randomwalk_def)
  let ?w = "py_slice_from trimsz walk"
  have w: "?w = drop (nat trimsz) walk" using assms(5) by (simp add: py_slice_from_def)
  have sw: "\<forall>x \<in> set ?w. x < ?n" using walk(3) unfolding w by (auto dest: in_set_dropD)
  have lw: "int (length ?w) = walklen + 1 - trimsz"
    using walk(2) assms(5,6) unfolding w by simp
  obtain visits where
    "assign_counts (zip (sort (remdups ?w)) (map (count_list ?w) (sort (remdups ?w))))
        (replicate ?n 0) = Inr visits"
    "length visits = ?n" "sum_list visits = int (length ?w)"
    using visits_sum [OF sw] by blast
  then show ?thesis using rw n lw by (simp add: simu_walk_def Let_def)
qed

theorem simu_walk_visits_sum_witness:
  "simu_walk 0 \<lparr>vcount = 3, edgelist = [(0, 1), (1, 0), (1, 2), (2, 1)]\<rparr> 5 2 0 (const_draw (6/10))
     = Inr [0, 2, 2]"
proof -
  let ?g = "\<lparr>vcount = 3, edgelist = [(0, 1), (1, 0), (1, 2), (2, 1)]\<rparr>"
  have h1: "wf_graph ?g" by (simp add: wf_graph_def)
  have h2: "positive_degrees ?g" by code_simp
  have h3: "0 < vcount ?g" by simp
  have h4: "uniform_draws (const_draw (6/10))" by (simp add: uniform_draws_def const_draw_def)
  have h5: "(0::int) \<le> 2" by simp
  have h6: "(2::int) \<le> 5" by simp
  obtain visits where
    v: "simu_walk 0 ?g 5 2 0 (const_draw (6/10)) = Inr visits" "length visits = vcount ?g"
    using simu_walk_visits_sum [OF h1 h2 h3 h4 h5 h6] by blast
  have "simu_walk 0 ?g 5 2 0 (const_draw (6/10)) = Inr [0, 2, 2]" by code_simp
  with v show ?thesis by simp
qed

theorem simu_walk_sum_counterexample:
  "wf_graph \<lparr>vcount = 2, edgelist = [(0, 1), (1, 0)]\<rparr>
   \<and> positive_degrees \<lparr>vcount = 2, edgelist = [(0, 1), (1, 0)]\<rparr>
   \<and> (0::int) \<le> 0 \<and> (0::int) \<le> 2
   \<and> simu_walk 0 \<lparr>vcount = 2, edgelist = [(0, 1), (1, 0)]\<rparr> 2 0 0 (const_draw 0) = Inr [2, 1]
   \<and> sum_list [2, 1 :: int] \<noteq> 2 - 0"
proof -
  have "wf_graph \<lparr>vcount = 2, edgelist = [(0, 1), (1, 0)]\<rparr>" by (simp add: wf_graph_def)
  moreover have "positive_degrees \<lparr>vcount = 2, edgelist = [(0, 1), (1, 0)]\<rparr>" by code_simp
  moreover have "simu_walk 0 \<lparr>vcount = 2, edgelist = [(0, 1), (1, 0)]\<rparr> 2 0 0 (const_draw 0) = Inr [2, 1]"
    by code_simp
  ultimately show ?thesis by simp
qed

section \<open>Pruning: the loop, single cycles and spanning cycles\<close>

lemma ecount_delete_edge:
  "eid < ecount g \<Longrightarrow> ecount (delete_edge g eid) + 1 = ecount g"
  by (simp add: ecount_def delete_edge_def)

lemma vcount_delete_edge [simp]: "vcount (delete_edge g eid) = vcount g"
  by (simp add: delete_edge_def)

lemma rac_loop_exhausted:
  assumes "\<forall>e \<in> set edgeids. e < ecount g \<and> \<not> is_connected (delete_edge g e)"
  shows "rac_loop g edgeids ntries = Inl (PyException [])"
  using assms by (induction edgeids arbitrary: ntries) (simp_all add: Let_def)

lemma rac_loop_first:
  assumes "\<forall>e \<in> set edgeids. e < ecount g"
      and "\<exists>e \<in> set edgeids. is_connected (delete_edge g e)"
  shows "rac_loop g edgeids ntries =
           Inr (delete_edge g
                  (edgeids ! length (takeWhile (\<lambda>e. \<not> is_connected (delete_edge g e)) edgeids)),
                ntries + length (takeWhile (\<lambda>e. \<not> is_connected (delete_edge g e)) edgeids))"
  using assms
proof (induction edgeids arbitrary: ntries)
  case Nil then show ?case by simp
next
  case (Cons e rest)
  show ?case
  proof (cases "is_connected (delete_edge g e)")
    case True
    then show ?thesis using Cons.prems(1) by (simp add: Let_def)
  next
    case False
    then have "\<exists>e \<in> set rest. is_connected (delete_edge g e)" using Cons.prems(2) by auto
    moreover have "\<forall>e \<in> set rest. e < ecount g" using Cons.prems(1) by simp
    ultimately show ?thesis
      using Cons.IH [of "ntries + 1"] False Cons.prems(1) by (simp add: Let_def)
  qed
qed

lemma shuffled_set: "shuffled g edgeids \<Longrightarrow> set edgeids = {..<ecount g}"
proof -
  assume "shuffled g edgeids"
  then have "set_mset (mset edgeids) = set_mset (mset [0..<ecount g])"
    by (simp add: shuffled_def)
  then show ?thesis by (simp add: atLeast0LessThan)
qed

lemma shuffled_length: "shuffled g edgeids \<Longrightarrow> length edgeids = ecount g"
proof -
  assume "shuffled g edgeids"
  then have "size (mset edgeids) = size (mset [0..<ecount g])"
    by (simp add: shuffled_def)
  then show ?thesis by simp
qed

lemma no_out_edge_not_reachable:
  assumes "\<forall>b. (a, b) \<notin> E" "a \<noteq> c"
  shows "(a, c) \<notin> E\<^sup>+"
proof
  assume "(a, c) \<in> E\<^sup>+"
  then obtain z where "(a, z) \<in> E" by (meson tranclD)
  with assms(1) show False by blast
qed

lemma single_cycle_sources:
  assumes "single_cycle g vs"
  shows "distinct (map fst (edgelist g))" "set (map fst (edgelist g)) = {..<vcount g}"
    "2 \<le> vcount g"
proof -
  have d: "distinct vs" and l: "length vs = vcount g" and two: "2 \<le> length vs"
    and lt: "\<forall>v \<in> set vs. v < vcount g"
    and m: "mset (edgelist g) = mset (zip vs (rotate1 vs))"
    using assms by (simp_all add: single_cycle_def list_all_iff)
  have "mset (map fst (edgelist g)) = mset (map fst (zip vs (rotate1 vs)))"
    using m by (metis mset_map)
  then have ms: "mset (map fst (edgelist g)) = mset vs" by simp
  show "distinct (map fst (edgelist g))"
    using ms d by (metis mset_eq_imp_distinct_iff)
  have "set (map fst (edgelist g)) = set vs" using ms by (metis mset_eq_setD)
  moreover have "set vs = {..<vcount g}"
  proof (rule card_subset_eq)
    show "finite {..<vcount g}" by simp
    show "set vs \<subseteq> {..<vcount g}" using lt by auto
    show "card (set vs) = card {..<vcount g}" using d l by (simp add: distinct_card)
  qed
  ultimately show "set (map fst (edgelist g)) = {..<vcount g}" by simp
  show "2 \<le> vcount g" using two l by simp
qed

lemma single_cycle_not_connected:
  assumes "single_cycle g vs" "eid < ecount g"
  shows "\<not> is_connected (delete_edge g eid)"
proof
  assume conn: "is_connected (delete_edge g eid)"
  let ?es = "edgelist g"
  let ?es' = "take eid ?es @ drop (Suc eid) ?es"
  note src = single_cycle_sources [OF assms(1)]
  have eid: "eid < length ?es" using assms(2) by (simp add: ecount_def)
  let ?a = "fst (?es ! eid)"
  have a: "?a < vcount g" using src(2) eid by (metis lessThan_iff nth_map nth_mem length_map)
  obtain c where c: "c < vcount g" "c \<noteq> ?a"
  proof (cases "?a = 0")
    case True then show ?thesis using that [of 1] src(3) by simp
  next
    case False then show ?thesis using that [of 0] src(3) by simp
  qed
  have "map fst ?es = take eid (map fst ?es) @ map fst ?es ! eid # drop (Suc eid) (map fst ?es)"
    using eid by (intro id_take_nth_drop) simp
  then have "map fst ?es = take eid (map fst ?es) @ ?a # drop (Suc eid) (map fst ?es)"
    using eid by (simp only: nth_map)
  then have "distinct (take eid (map fst ?es) @ ?a # drop (Suc eid) (map fst ?es))"
    using src(1) by simp
  then have "?a \<notin> set (take eid (map fst ?es)) \<union> set (drop (Suc eid) (map fst ?es))"
    by auto
  then have "?a \<notin> fst ` set ?es'" by (simp add: take_map drop_map image_Un)
  then have "\<forall>b. (?a, b) \<notin> set ?es'" by (metis fst_conv image_eqI)
  then have "(?a, c) \<notin> (set ?es')\<^sup>+" using c(2) by (intro no_out_edge_not_reachable) auto
  moreover have "?a = c \<or> (?a, c) \<in> (set ?es')\<^sup>+"
    using conn a c(1) by (simp add: is_connected_def delete_edge_def list_all_iff)
  ultimately show False using c(2) by simp
qed

text \<open>
  Claim C4. On a graph that is a single directed cycle (through at least two vertices),
  \<^verbatim>\<open>remove_arc_conn\<close> raises the exception of line 187 for every shuffle order of the
  edge ids, since the removal of any one edge breaks strong connectivity; it never
  returns a graph.
\<close>

theorem single_cycle_prune_exhausted:
  assumes "single_cycle g vs" "shuffled g edgeids"
  shows "remove_arc_conn g edgeids = Inl (PyException [])
       \<and> list_all (\<lambda>e. \<not> is_connected (delete_edge g e)) [0..<ecount g]"
proof -
  have "\<forall>e \<in> set edgeids. e < ecount g \<and> \<not> is_connected (delete_edge g e)"
    using shuffled_set [OF assms(2)] single_cycle_not_connected [OF assms(1)] by auto
  then have "remove_arc_conn g edgeids = Inl (PyException [])"
    unfolding remove_arc_conn_def by (rule rac_loop_exhausted)
  moreover have "list_all (\<lambda>e. \<not> is_connected (delete_edge g e)) [0..<ecount g]"
    using single_cycle_not_connected [OF assms(1)] by (simp add: list_all_iff)
  ultimately show ?thesis by simp
qed

theorem single_cycle_prune_exhausted_witness:
  "remove_arc_conn \<lparr>vcount = 3, edgelist = [(0, 1), (2, 0), (1, 2)]\<rparr> [2, 0, 1] = Inl (PyException [])"
proof -
  have h1: "single_cycle \<lparr>vcount = 3, edgelist = [(0, 1), (2, 0), (1, 2)]\<rparr> [0, 1, 2]" by code_simp
  have h2: "shuffled \<lparr>vcount = 3, edgelist = [(0, 1), (2, 0), (1, 2)]\<rparr> [2, 0, 1]" by code_simp
  show ?thesis using single_cycle_prune_exhausted [OF h1 h2] by (rule conjunct1)
qed

lemma nth_in_delete:
  assumes "j < length es" "j \<noteq> eid"
  shows "es ! j \<in> set (take eid es @ drop (Suc eid) es)"
proof (cases "j < eid")
  case True
  then have "take eid es ! j = es ! j" "j < length (take eid es)" using assms(1) by simp_all
  then have "es ! j \<in> set (take eid es)" by (metis nth_mem)
  then show ?thesis by simp
next
  case False
  then have gt: "Suc eid \<le> j" using assms(2) by simp
  then have "drop (Suc eid) es ! (j - Suc eid) = es ! j" using assms(1) by simp
  moreover have "j - Suc eid < length (drop (Suc eid) es)" using gt assms(1) by simp
  ultimately have "es ! j \<in> set (drop (Suc eid) es)" by (metis nth_mem)
  then show ?thesis by simp
qed

lemma takeWhile_stops:
  "\<exists>x \<in> set xs. \<not> P x \<Longrightarrow> length (takeWhile P xs) < length xs"
  by (induction xs) auto

lemma remove_arc_conn_first_removable:
  assumes "shuffled g edgeids" "\<exists>e < ecount g. is_connected (delete_edge g e)"
  shows "\<exists>g' k. remove_arc_conn g edgeids = Inr (g', k) \<and> is_connected g'
           \<and> vcount g' = vcount g \<and> ecount g' + 1 = ecount g \<and> 1 \<le> k \<and> k \<le> ecount g
           \<and> k = Suc (length (takeWhile (\<lambda>e. \<not> is_connected (delete_edge g e)) edgeids))
           \<and> g' = delete_edge g (edgeids ! (k - 1))"
proof -
  let ?P = "\<lambda>e. \<not> is_connected (delete_edge g e)"
  let ?j = "length (takeWhile ?P edgeids)"
  have all: "\<forall>e \<in> set edgeids. e < ecount g" using shuffled_set [OF assms(1)] by simp
  have ex: "\<exists>e \<in> set edgeids. is_connected (delete_edge g e)"
    using shuffled_set [OF assms(1)] assms(2) by auto
  have run: "remove_arc_conn g edgeids = Inr (delete_edge g (edgeids ! ?j), 1 + ?j)"
    unfolding remove_arc_conn_def using all ex by (rule rac_loop_first)
  have j: "?j < length edgeids" using ex by (intro takeWhile_stops) auto
  then have good: "is_connected (delete_edge g (edgeids ! ?j))"
    using nth_length_takeWhile [of ?P edgeids] by simp
  have lt: "edgeids ! ?j < ecount g" using all j by simp
  show ?thesis
    using run good j ecount_delete_edge [OF lt] shuffled_length [OF assms(1)] by simp
qed

lemma cycle_step:
  assumes "is_cycle g c" "eid \<notin> set c"
  shows "(fst (edgelist g ! (c ! (i mod length c))),
          fst (edgelist g ! (c ! (Suc i mod length c))))
         \<in> set (take eid (edgelist g) @ drop (Suc eid) (edgelist g))"
proof -
  let ?es = "edgelist g" and ?L = "length c"
  have L: "0 < ?L" using assms(1) by (simp add: is_cycle_def)
  then have i: "i mod ?L < ?L" by simp
  have lt: "c ! (i mod ?L) < length ?es"
    using assms(1) i by (simp add: is_cycle_def list_all_length ecount_def)
  have ne: "c ! (i mod ?L) \<noteq> eid" using assms(2) i by (metis nth_mem)
  have "snd (?es ! (c ! (i mod ?L))) = fst (?es ! (c ! (Suc (i mod ?L) mod ?L)))"
    using assms(1) i by (simp add: is_cycle_def list_all_length)
  then have "snd (?es ! (c ! (i mod ?L))) = fst (?es ! (c ! (Suc i mod ?L)))"
    by (simp add: mod_Suc_eq)
  then have "?es ! (c ! (i mod ?L))
      = (fst (?es ! (c ! (i mod ?L))), fst (?es ! (c ! (Suc i mod ?L))))"
    by (metis prod.collapse)
  then show ?thesis using nth_in_delete [OF lt ne] by simp
qed

lemma cycle_path:
  assumes "is_cycle g c" "eid \<notin> set c"
  shows "(fst (edgelist g ! (c ! (i mod length c))),
          fst (edgelist g ! (c ! ((i + k) mod length c))))
         \<in> (set (take eid (edgelist g) @ drop (Suc eid) (edgelist g)))\<^sup>*"
proof (induction k)
  case 0 show ?case by simp
next
  case (Suc k)
  have "(fst (edgelist g ! (c ! ((i + k) mod length c))),
         fst (edgelist g ! (c ! (Suc (i + k) mod length c))))
        \<in> set (take eid (edgelist g) @ drop (Suc eid) (edgelist g))"
    using assms by (rule cycle_step)
  with Suc show ?case by (simp add: rtrancl.rtrancl_into_rtrancl)
qed

lemma spanning_cycle_connected:
  assumes "wf_graph g" "is_cycle g c" "covers_all g c" "eid \<notin> set c"
  shows "is_connected (delete_edge g eid)"
proof -
  let ?es = "edgelist g" and ?L = "length c"
  let ?E = "set (take eid ?es @ drop (Suc eid) ?es)"
  have L: "0 < ?L" using assms(2) by (simp add: is_cycle_def)
  have on_cycle: "\<exists>i < ?L. u = fst (?es ! (c ! i))" if "u < vcount g" for u
  proof -
    have "u \<in> set (cycle_vertices g c)"
      using assms(3) that by (simp add: covers_all_def list_all_iff)
    then show ?thesis by (auto simp: cycle_vertices_def in_set_conv_nth)
  qed
  have reach: "(u, v) \<in> ?E\<^sup>*" if "u < vcount g" "v < vcount g" for u v
  proof -
    note u = \<open>u < vcount g\<close> and v = \<open>v < vcount g\<close>
    obtain i where i: "i < ?L" "u = fst (?es ! (c ! i))" using on_cycle [OF u] by blast
    obtain j where j: "j < ?L" "v = fst (?es ! (c ! j))" using on_cycle [OF v] by blast
    have "i + (j + ?L - i) = j + ?L" using i(1) by simp
    then have "(i + (j + ?L - i)) mod ?L = j" using j(1) by simp
    moreover have "i mod ?L = i" using i(1) by simp
    ultimately show ?thesis
      using cycle_path [OF assms(2,4), of i "j + ?L - i"] i(2) j(2) by simp
  qed
  have pos: "0 < vcount g"
  proof -
    have "c ! 0 < length ?es"
      using assms(2) L by (simp add: is_cycle_def list_all_length ecount_def)
    then have "?es ! (c ! 0) \<in> set ?es" by simp
    then have "fst (?es ! (c ! 0)) < vcount g"
      using assms(1) by (auto simp: wf_graph_def list_all_iff)
    then show ?thesis by simp
  qed
  have "u = v \<or> (u, v) \<in> ?E\<^sup>+" if "u < vcount g" "v < vcount g" for u v
    using reach [OF that] by (metis rtranclD)
  then show ?thesis using pos by (simp add: is_connected_def delete_edge_def list_all_iff)
qed

text \<open>
  Two edge-disjoint cycles each of which passes through every vertex are enough for
  every edge to be removable: the removal of an edge leaves one of the two cycles whole.
\<close>

lemma two_spanning_cycles_all_removable:
  assumes "wf_graph g"
      and "is_cycle g c1" "covers_all g c1" "is_cycle g c2" "covers_all g c2"
      and "edge_disjoint c1 c2"
  shows "0 < ecount g \<and> (\<forall>e. is_connected (delete_edge g e))"
proof -
  have any: "is_connected (delete_edge g e)" for e
  proof (cases "e \<in> set c1")
    case True
    then have "e \<notin> set c2" using assms(6) by (auto simp: edge_disjoint_def list_all_iff)
    with assms(1,4,5) show ?thesis by (rule spanning_cycle_connected)
  next
    case False
    with assms(1,2,3) show ?thesis by (rule spanning_cycle_connected)
  qed
  have "0 < ecount g"
  proof -
    have "c1 \<noteq> []" "\<forall>e \<in> set c1. e < ecount g"
      using assms(2) by (simp_all add: is_cycle_def list_all_iff)
    then show ?thesis by (cases c1) auto
  qed
  with any show ?thesis by blast
qed

lemma before_first_removable:
  assumes "i < length (takeWhile (\<lambda>e. \<not> is_connected (delete_edge g e)) edgeids)"
  shows "\<not> is_connected (delete_edge g (edgeids ! i))"
proof -
  let ?P = "\<lambda>e. \<not> is_connected (delete_edge g e)"
  have "takeWhile ?P edgeids ! i \<in> set (takeWhile ?P edgeids)" using assms by simp
  then have "?P (takeWhile ?P edgeids ! i)" by (metis set_takeWhileD)
  then show ?thesis using assms by (simp add: takeWhile_nth)
qed

section \<open>Claim on the pruner\<close>

text \<open>
  Claim C3, as amended. On a strongly connected graph in which the removal of at least
  one edge preserves strong connectivity, \<^verbatim>\<open>remove_arc_conn\<close> returns, for every
  shuffle order, a strongly connected graph on the same vertices with exactly one edge
  fewer, together with the attempt count \<open>k\<close>, \<open>1 \<le> k \<le>\<close> the edge count, which is the
  1-based position of the first candidate in the shuffled order whose removal preserves
  strong connectivity: the removal of each of the \<open>k - 1\<close> candidates before it breaks
  strong connectivity, and the graph returned is the input without candidate \<open>k\<close>.
  Cycles that cover the vertices only together do not make an edge removable (the
  counterexample below); two edge-disjoint cycles that each pass through every vertex
  do (\<open>two_spanning_cycles_all_removable\<close>).
\<close>

theorem remove_arc_conn_returns_first_removable:
  assumes "is_connected g" "shuffled g edgeids"
      and "\<exists>e < ecount g. is_connected (delete_edge g e)"
  shows "\<exists>g' k. remove_arc_conn g edgeids = Inr (g', k) \<and> is_connected g'
           \<and> vcount g' = vcount g \<and> ecount g' + 1 = ecount g \<and> 1 \<le> k \<and> k \<le> ecount g
           \<and> k = Suc (length (takeWhile (\<lambda>e. \<not> is_connected (delete_edge g e)) edgeids))
           \<and> (\<forall>i < k - 1. \<not> is_connected (delete_edge g (edgeids ! i)))
           \<and> g' = delete_edge g (edgeids ! (k - 1))"
proof -
  obtain g' k where r: "remove_arc_conn g edgeids = Inr (g', k)" "is_connected g'"
      "vcount g' = vcount g" "ecount g' + 1 = ecount g" "1 \<le> k" "k \<le> ecount g"
      "k = Suc (length (takeWhile (\<lambda>e. \<not> is_connected (delete_edge g e)) edgeids))"
      "g' = delete_edge g (edgeids ! (k - 1))"
    using remove_arc_conn_first_removable [OF assms(2,3)] by blast
  have "\<forall>i < k - 1. \<not> is_connected (delete_edge g (edgeids ! i))"
    using r(7) before_first_removable [of _ g edgeids] by simp
  with r show ?thesis by blast
qed

theorem remove_arc_conn_returns_first_removable_witness:
  "remove_arc_conn \<lparr>vcount = 3, edgelist = [(0, 1), (1, 2), (2, 0), (0, 1), (1, 0)]\<rparr>
     [1, 3, 0, 2, 4]
   = Inr (\<lparr>vcount = 3, edgelist = [(0, 1), (1, 2), (2, 0), (1, 0)]\<rparr>, 2)"
proof -
  let ?g = "\<lparr>vcount = 3, edgelist = [(0, 1), (1, 2), (2, 0), (0, 1), (1, 0)]\<rparr>"
  have h1: "is_connected ?g" by code_simp
  have h2: "shuffled ?g [1, 3, 0, 2, 4]" by code_simp
  have "3 < ecount ?g" by (simp add: ecount_def)
  moreover have "is_connected (delete_edge ?g 3)" by code_simp
  ultimately have h3: "\<exists>e < ecount ?g. is_connected (delete_edge ?g e)" by blast
  obtain g' k where r: "remove_arc_conn ?g [1, 3, 0, 2, 4] = Inr (g', k)" "is_connected g'"
    using remove_arc_conn_returns_first_removable [OF h1 h2 h3] by blast
  have "remove_arc_conn ?g [1, 3, 0, 2, 4]
      = Inr (\<lparr>vcount = 3, edgelist = [(0, 1), (1, 2), (2, 0), (1, 0)]\<rparr>, 2)"
    by code_simp
  with r show ?thesis by simp
qed

theorem remove_arc_conn_joint_cover_counterexample:
  "is_connected \<lparr>vcount = 3, edgelist = [(0, 1), (1, 0), (1, 2), (2, 1)]\<rparr>
   \<and> is_cycle \<lparr>vcount = 3, edgelist = [(0, 1), (1, 0), (1, 2), (2, 1)]\<rparr> [0, 1]
   \<and> is_cycle \<lparr>vcount = 3, edgelist = [(0, 1), (1, 0), (1, 2), (2, 1)]\<rparr> [2, 3]
   \<and> edge_disjoint [0, 1] [2, 3]
   \<and> jointly_cover \<lparr>vcount = 3, edgelist = [(0, 1), (1, 0), (1, 2), (2, 1)]\<rparr> [0, 1] [2, 3]
   \<and> shuffled \<lparr>vcount = 3, edgelist = [(0, 1), (1, 0), (1, 2), (2, 1)]\<rparr> [0, 1, 2, 3]
   \<and> remove_arc_conn \<lparr>vcount = 3, edgelist = [(0, 1), (1, 0), (1, 2), (2, 1)]\<rparr> [0, 1, 2, 3]
       = Inl (PyException [])"
proof -
  let ?g = "\<lparr>vcount = 3, edgelist = [(0, 1), (1, 0), (1, 2), (2, 1)]\<rparr>"
  have "is_connected ?g" by code_simp
  moreover have "is_cycle ?g [0, 1]" by code_simp
  moreover have "is_cycle ?g [2, 3]" by code_simp
  moreover have "edge_disjoint [0, 1] [2, 3]" by code_simp
  moreover have "jointly_cover ?g [0, 1] [2, 3]" by code_simp
  moreover have "shuffled ?g [0, 1, 2, 3]" by code_simp
  moreover have "remove_arc_conn ?g [0, 1, 2, 3] = Inl (PyException [])" by code_simp
  ultimately show ?thesis by simp
qed

section \<open>Claim on the experiment driver\<close>

text \<open>
  Claim C6. When \<open>nbatches * batchsz\<close> exceeds 75% of the edge count of the initial graph,
  or the initial graph is not strongly connected, \<^verbatim>\<open>initial_check\<close> raises, and
  \<^verbatim>\<open>run_experiment\<close> ends with that exception before any simulator has been called
  (its log of simulator calls is empty). The batch count is non-negative: a negative one
  fails before, at the allocation of \<^verbatim>\<open>nattempts\<close>. The witness is the case
  \<open>nbatches = 10\<close>, \<open>batchsz = 1\<close> on a graph with 5 edges.
\<close>

theorem initial_check_precedes_simulation:
  assumes "0 \<le> cfg_nbatches cfg"
      and "real_of_int (cfg_nbatches cfg * cfg_batchsz cfg) > 0.75 * real (ecount gorig)
           \<or> \<not> is_connected gorig"
  shows "\<exists>msg. initial_check (cfg_nbatches cfg) (cfg_batchsz cfg) gorig = Inl (PyException msg)
           \<and> run_experiment cfg tries gorig ds orders = ([], Inl (PyException msg))"
proof (cases "real_of_int (cfg_nbatches cfg * cfg_batchsz cfg) > 0.75 * real (ecount gorig)")
  case True
  then have "initial_check (cfg_nbatches cfg) (cfg_batchsz cfg) gorig
      = Inl (PyException ''Too may arcs to be removed.'')"
    by (simp add: initial_check_def)
  then show ?thesis using assms(1) by (simp add: run_experiment_def)
next
  case False
  then have "\<not> is_connected gorig" using assms(2) by simp
  then have "initial_check (cfg_nbatches cfg) (cfg_batchsz cfg) gorig
      = Inl (PyException ''Initial graph is not strongly connected.'')"
    using False by (simp add: initial_check_def)
  then show ?thesis using assms(1) by (simp add: run_experiment_def)
qed

theorem initial_check_precedes_simulation_witness:
  "run_experiment (small_config 10 1) 1
     \<lparr>vcount = 2, edgelist = [(0, 1), (1, 0), (0, 1), (1, 0), (0, 1)]\<rparr> fixed_draws fixed_orders
   = ([], Inl (PyException ''Too may arcs to be removed.''))
   \<and> ecount \<lparr>vcount = 2, edgelist = [(0, 1), (1, 0), (0, 1), (1, 0), (0, 1)]\<rparr> = 5"
proof -
  let ?g = "\<lparr>vcount = 2, edgelist = [(0, 1), (1, 0), (0, 1), (1, 0), (0, 1)]\<rparr>"
  let ?cfg = "small_config 10 1"
  have e: "ecount ?g = 5" by (simp add: ecount_def)
  have nb: "cfg_nbatches ?cfg = 10" "cfg_batchsz ?cfg = 1" by (simp_all add: small_config_def)
  have h1: "0 \<le> cfg_nbatches ?cfg" by (simp add: nb)
  have h2: "real_of_int (cfg_nbatches ?cfg * cfg_batchsz ?cfg) > 0.75 * real (ecount ?g)
            \<or> \<not> is_connected ?g"
    by (simp add: nb ecount_def)
  obtain msg where m: "initial_check (cfg_nbatches ?cfg) (cfg_batchsz ?cfg) ?g = Inl (PyException msg)"
      "run_experiment ?cfg 1 ?g fixed_draws fixed_orders = ([], Inl (PyException msg))"
    using initial_check_precedes_simulation [OF h1 h2] by blast
  have "initial_check (cfg_nbatches ?cfg) (cfg_batchsz ?cfg) ?g
      = Inl (PyException ''Too may arcs to be removed.'')"
    by (simp add: initial_check_def nb ecount_def)
  with m have "msg = ''Too may arcs to be removed.''" by simp
  with m(2) e show ?thesis by simp
qed

end
